theory Spec2Isabelle
  imports Complex_Main "HOL-Library.Word"
begin

unbundle bit_operations_syntax

section \<open>RC5 (src/RC5.cpp): data model\<close>

text \<open>
  The class template \<open>RC5<w, r, b>\<close> is embedded with the word width \<open>w\<close> as the length
  of the word type (\<open>Word\<close> is \<open>'a word\<close> with \<open>LENGTH('a) = w\<close>), the round count
  \<open>r\<close> as a \<open>uint8_t\<close> (\<open>8 word\<close>) and the key as a list of bytes whose length is
  \<open>b\<close>. Arrays are lists; every subscript is checked, because an index outside a
  \<open>std::array\<close> is undefined in C++. Faults are results of the model (\<open>Inl\<close>).
\<close>

type_synonym byte = "8 word"

datatype fault = UnsupportedWidth | SizeMismatch | OutOfBounds | UndefinedShift

type_synonym 'a result = "fault + 'a"

definition and_then :: "'a result \<Rightarrow> ('a \<Rightarrow> 'b result) \<Rightarrow> 'b result" where
  "and_then m f = (case m of Inl e \<Rightarrow> Inl e | Inr v \<Rightarrow> f v)"

text \<open>\<open>xs[i]\<close> read and written, for a \<open>std::array\<close> of \<open>length xs\<close> elements.\<close>

definition rd :: "'e list \<Rightarrow> nat \<Rightarrow> 'e result" where
  "rd xs i = (if i < length xs then Inr (xs ! i) else Inl OutOfBounds)"

definition wr :: "'e list \<Rightarrow> nat \<Rightarrow> 'e \<Rightarrow> ('e list) result" where
  "wr xs i v = (if i < length xs then Inr (xs[i := v]) else Inl OutOfBounds)"

text \<open>A \<open>for\<close> loop whose counter is an \<open>int\<close> that stays far from its limits: the body
  is run on each counter value in turn and the first fault ends the loop.\<close>

fun for_each :: "('i \<Rightarrow> 's \<Rightarrow> 's result) \<Rightarrow> 'i list \<Rightarrow> 's \<Rightarrow> 's result" where
  "for_each body [] s = Inr s"
| "for_each body (i # is) s = and_then (body i s) (for_each body is)"

subsection \<open>WordT: the supported widths and their magic constants\<close>

text \<open>\<open>WordT<w>::type\<close> is \<open>void\<close> unless \<open>w\<close> is 16, 32 or 64, so that any other cipher
  fails to compile; the two constants exist for those three widths only.\<close>

definition WordT_P :: "'a::len word result" where
  "WordT_P =
     (if LENGTH('a) = 16 then Inr 0xb7e1
      else if LENGTH('a) = 32 then Inr 0xb7e15163
      else if LENGTH('a) = 64 then Inr 0xb7e151628aed2a6b
      else Inl UnsupportedWidth)"

definition WordT_Q :: "'a::len word result" where
  "WordT_Q =
     (if LENGTH('a) = 16 then Inr 0x9e37
      else if LENGTH('a) = 32 then Inr 0x9e3779b9
      else if LENGTH('a) = 64 then Inr 0x9e3779b97f4a7c15
      else Inl UnsupportedWidth)"

definition supported :: "'a::len itself \<Rightarrow> bool" where
  "supported _ = (LENGTH('a) = 16 \<or> LENGTH('a) = 32 \<or> LENGTH('a) = 64)"

subsection \<open>Constants derived from the parameters\<close>

text \<open>\<open>u = ceil(w / 8)\<close>: the division is the integer one, \<open>ceil\<close> changes nothing.\<close>

definition u :: "'a::len itself \<Rightarrow> nat" where
  "u _ = LENGTH('a) div 8"

text \<open>\<open>t = 2 * (r + 1)\<close>, computed in \<open>int\<close> and stored in a \<open>uint16_t\<close> (at most 512).\<close>

definition t :: "8 word \<Rightarrow> nat" where
  "t r = 2 * (unat r + 1)"

text \<open>\<open>c = ceil(max<double>(b, 1) / u)\<close>, stored in a \<open>uint8_t\<close>: the quotient of the two
  small integers is rounded up (\<open>c_is_ceiling\<close> below), and with \<open>b \<le> 255\<close> and
  \<open>u \<ge> 2\<close> it is at most 128.\<close>

definition c :: "'a::len itself \<Rightarrow> nat \<Rightarrow> nat" where
  "c w b = (max b 1 + u w - 1) div u w"

subsection \<open>Shifts and rotations\<close>

text \<open>
  The left operand of a shift is promoted first: a \<open>uint16_t\<close> becomes a 32-bit \<open>int\<close>,
  wider words keep their type. C++ leaves a shift undefined when its count is not below
  the width of the promoted operand. What such a shift does is a parameter of the
  model, the first argument of every function that shifts:
  \<^item> \<open>Undefined\<close>: the reading of the language, the evaluation faults;
  \<^item> \<open>Zero\<close>: all bits are shifted out (constant folding, ARM register shifts);
  \<^item> \<open>Modulo\<close>: the count is taken modulo the width (x86 shift instructions).

  The value of a rotation is converted back to \<open>Word\<close> on return, which keeps the low
  \<open>w\<close> bits of both shifted operands; the model keeps these bits only.
\<close>

datatype wide_shift = Undefined | Zero | Modulo

definition promoted_bits :: "'a::len itself \<Rightarrow> nat" where
  "promoted_bits _ = max 32 LENGTH('a)"

definition shl :: "wide_shift \<Rightarrow> 'a::len word \<Rightarrow> nat \<Rightarrow> 'a word result" where
  "shl ws x n =
     (if n < promoted_bits TYPE('a) then Inr (push_bit n x)
      else case ws of
             Undefined \<Rightarrow> Inl UndefinedShift
           | Zero \<Rightarrow> Inr 0
           | Modulo \<Rightarrow> Inr (push_bit (n mod promoted_bits TYPE('a)) x))"

definition shr :: "wide_shift \<Rightarrow> 'a::len word \<Rightarrow> nat \<Rightarrow> 'a word result" where
  "shr ws x n =
     (if n < promoted_bits TYPE('a) then Inr (drop_bit n x)
      else case ws of
             Undefined \<Rightarrow> Inl UndefinedShift
           | Zero \<Rightarrow> Inr 0
           | Modulo \<Rightarrow> Inr (drop_bit (n mod promoted_bits TYPE('a)) x))"

text \<open>\<open>x << (y & (w - 1)) | x >> (w - (y & (w - 1)))\<close>\<close>

definition left_shift :: "wide_shift \<Rightarrow> 'a::len word \<Rightarrow> 'a word \<Rightarrow> 'a word result" where
  "left_shift ws x y =
     (let n = unat (y AND of_nat (LENGTH('a) - 1)) in
      and_then (shl ws x n) (\<lambda>hi.
      and_then (shr ws x (LENGTH('a) - n)) (\<lambda>lo.
      Inr (hi OR lo))))"

text \<open>\<open>x >> (y & (w - 1)) | x << (w - (y & (w - 1)))\<close>\<close>

definition right_shift :: "wide_shift \<Rightarrow> 'a::len word \<Rightarrow> 'a word \<Rightarrow> 'a word result" where
  "right_shift ws x y =
     (let n = unat (y AND of_nat (LENGTH('a) - 1)) in
      and_then (shr ws x n) (\<lambda>lo.
      and_then (shl ws x (LENGTH('a) - n)) (\<lambda>hi.
      Inr (lo OR hi))))"

subsection \<open>Byte packing\<close>

text \<open>\<open>packWord\<close>: \<open>for (i = 1; i <= u; ++i) word = (word << 8) + input_stream[start + u - i]\<close>.
  The count 8 is below every promoted width.\<close>

definition packWord :: "byte list \<Rightarrow> nat \<Rightarrow> 'a::len word result" where
  "packWord input_stream start =
     for_each (\<lambda>i word.
         and_then (rd input_stream (start + u TYPE('a) - i)) (\<lambda>byte.
         Inr (push_bit 8 word + ucast byte)))
       [1 ..< Suc (u TYPE('a))] 0"

text \<open>\<open>unpackWord\<close>:
  \<open>for (i = 0; i < u; ++i) outputStream[start + i] = (word & (0xFFull << i * 8)) >> (i * 8)\<close>.
  The mask is an \<open>unsigned long long\<close>, so the arithmetic is on 64 bits (the count is
  at most 56) and the assignment keeps the low byte.\<close>

definition unpackWord :: "byte list \<Rightarrow> nat \<Rightarrow> 'a::len word \<Rightarrow> (byte list) result" where
  "unpackWord outputStream start word =
     for_each (\<lambda>i out.
         wr out (start + i)
           (ucast (drop_bit (i * 8) ((ucast word :: 64 word) AND push_bit (i * 8) 0xFF))))
       [0 ..< u TYPE('a)] outputStream"

subsection \<open>Key schedule\<close>

text \<open>The state of the mixing loop of \<open>setupS\<close>: the two tables, \<open>A\<close>, \<open>B\<close> and the two
  indices.\<close>

record 'w mix =
  tabS :: "'w list"
  tabL :: "'w list"
  regA :: "'w"
  regB :: "'w"
  idxi :: nat
  idxj :: nat

text \<open>\<open>L[i / u] = (L[i / u] << 8) + K[i]\<close>\<close>

definition load_key :: "byte list \<Rightarrow> nat \<Rightarrow> 'a::len word list \<Rightarrow> ('a word list) result" where
  "load_key K i L =
     and_then (rd L (i div u TYPE('a))) (\<lambda>old.
     and_then (rd K i) (\<lambda>byte.
     wr L (i div u TYPE('a)) (push_bit 8 old + ucast byte)))"

text \<open>\<open>S[i] = S[i - 1] + Q\<close>\<close>

definition next_S :: "'a::len word \<Rightarrow> nat \<Rightarrow> 'a word list \<Rightarrow> ('a word list) result" where
  "next_S Q i S = and_then (rd S (i - 1)) (\<lambda>prev. wr S i (prev + Q))"

text \<open>One turn of the mixing loop:
  \<open>A = S[i] = left_shift(S[i] + A + B, 3); B = L[j] = left_shift(L[j] + A + B, A + B);
   i = (i + 1) % t; j = (j + 1) % c\<close>.\<close>

definition mix_step :: "wide_shift \<Rightarrow> nat \<Rightarrow> nat \<Rightarrow> 'a::len word mix \<Rightarrow> ('a word mix) result" where
  "mix_step ws tt cc m =
     and_then (rd (tabS m) (idxi m)) (\<lambda>Si.
     and_then (left_shift ws (Si + regA m + regB m) 3) (\<lambda>A.
     and_then (wr (tabS m) (idxi m) A) (\<lambda>S.
     and_then (rd (tabL m) (idxj m)) (\<lambda>Lj.
     and_then (left_shift ws (Lj + A + regB m) (A + regB m)) (\<lambda>B.
     and_then (wr (tabL m) (idxj m) B) (\<lambda>L.
     Inr \<lparr>tabS = S, tabL = L, regA = A, regB = B,
          idxi = (idxi m + 1) mod tt, idxj = (idxj m + 1) mod cc\<rparr>))))))"

text \<open>\<open>setupS\<close>: the key bytes are loaded into \<open>L\<close> from the last to the first, \<open>S\<close> is
  filled from \<open>P\<close> and \<open>Q\<close>, and the two tables are mixed \<open>3 * max(t, c)\<close> times.\<close>

definition setupS :: "wide_shift \<Rightarrow> 8 word \<Rightarrow> byte list \<Rightarrow> ('a::len word list) result" where
  "setupS ws r K =
     and_then WordT_P (\<lambda>P.
     and_then WordT_Q (\<lambda>Q.
     let b = length K; cc = c TYPE('a) b in
     and_then (for_each (load_key K) (rev [0 ..< b]) (replicate cc 0)) (\<lambda>L.
     and_then (wr (replicate (t r) 0) 0 P) (\<lambda>S0.
     and_then (for_each (next_S Q) [1 ..< t r] S0) (\<lambda>S.
     and_then (for_each (\<lambda>k. mix_step ws (t r) cc) [0 ..< 3 * max (t r) cc]
                 \<lparr>tabS = S, tabL = L, regA = 0, regB = 0, idxi = 0, idxj = 0\<rparr>) (\<lambda>m.
     Inr (tabS m)))))))"

subsection \<open>Block transforms\<close>

text \<open>One round of \<open>encodeWords\<close>, for the counter value \<open>i\<close>:
  \<open>A = left_shift(A ^ B, B) + S[2 * i]; B = left_shift(B ^ A, A) + S[2 * i + 1]\<close>.\<close>

definition encode_round ::
  "wide_shift \<Rightarrow> 'a::len word list \<Rightarrow> 8 word \<Rightarrow> 'a word \<times> 'a word \<Rightarrow> ('a word \<times> 'a word) result" where
  "encode_round ws S i AB =
     (case AB of (A, B) \<Rightarrow>
      and_then (left_shift ws (A XOR B) B) (\<lambda>ra.
      and_then (rd S (2 * unat i)) (\<lambda>s0.
      let A' = ra + s0 in
      and_then (left_shift ws (B XOR A') A') (\<lambda>rb.
      and_then (rd S (2 * unat i + 1)) (\<lambda>s1.
      Inr (A', rb + s1))))))"

text \<open>\<open>for (uint8_t i = 1; i <= r; ++i)\<close>: the counter is a byte and \<open>++i\<close> wraps, so
  the loop is not known to end; a run that never leaves it has the value \<open>None\<close>.\<close>

partial_function (option) encode_loop ::
  "wide_shift \<Rightarrow> 'a::len word list \<Rightarrow> 8 word \<Rightarrow> 8 word \<Rightarrow> 'a word \<times> 'a word
     \<Rightarrow> ('a word \<times> 'a word) result option" where
  [code]: "encode_loop ws S r i AB =
     (if i \<le> r then
        (case encode_round ws S i AB of
           Inl e \<Rightarrow> Some (Inl e)
         | Inr AB' \<Rightarrow> encode_loop ws S r (i + 1) AB')
      else Some (Inr AB))"

text \<open>\<open>encodeWords\<close>: \<open>S = setupS(K); A += S[0]; B += S[1]\<close>, then the rounds.\<close>

definition encodeWords ::
  "wide_shift \<Rightarrow> 8 word \<Rightarrow> byte list \<Rightarrow> 'a::len word \<times> 'a word
     \<Rightarrow> ('a word \<times> 'a word) result option" where
  "encodeWords ws r K AB =
     (case AB of (A, B) \<Rightarrow>
      (case setupS ws r K of
         Inl e \<Rightarrow> Some (Inl e)
       | Inr S \<Rightarrow>
           (case and_then (rd S 0) (\<lambda>s0. and_then (rd S 1) (\<lambda>s1. Inr (A + s0, B + s1))) of
              Inl e \<Rightarrow> Some (Inl e)
            | Inr AB' \<Rightarrow> encode_loop ws S r 1 AB')))"

text \<open>One round of \<open>decodeWords\<close>:
  \<open>B = right_shift(B - S[2 * i + 1], A) ^ A; A = right_shift(A - S[2 * i], B) ^ B\<close>.\<close>

definition decode_round ::
  "wide_shift \<Rightarrow> 'a::len word list \<Rightarrow> 8 word \<Rightarrow> 'a word \<times> 'a word \<Rightarrow> ('a word \<times> 'a word) result" where
  "decode_round ws S i AB =
     (case AB of (A, B) \<Rightarrow>
      and_then (rd S (2 * unat i + 1)) (\<lambda>s1.
      and_then (right_shift ws (B - s1) A) (\<lambda>rb.
      let B' = rb XOR A in
      and_then (rd S (2 * unat i)) (\<lambda>s0.
      and_then (right_shift ws (A - s0) B') (\<lambda>ra.
      Inr (ra XOR B', B'))))))"

text \<open>\<open>for (uint8_t i = r; i > 0; --i)\<close>\<close>

function decode_loop ::
  "wide_shift \<Rightarrow> 'a::len word list \<Rightarrow> 8 word \<Rightarrow> 'a word \<times> 'a word \<Rightarrow> ('a word \<times> 'a word) result" where
  "decode_loop ws S i AB =
     (if i > 0 then and_then (decode_round ws S i AB) (decode_loop ws S (i - 1)) else Inr AB)"
  by pat_completeness auto
termination
  by (relation "measure (\<lambda>(ws, S, i, AB). unat i)")
     (auto simp: unat_minus_one word_greater_zero_iff unat_gt_0)

text \<open>\<open>decodeWords\<close>: \<open>S = setupS(K)\<close>, the rounds backwards, then \<open>B -= S[1]; A -= S[0]\<close>.\<close>

definition decodeWords ::
  "wide_shift \<Rightarrow> 8 word \<Rightarrow> byte list \<Rightarrow> 'a::len word \<times> 'a word \<Rightarrow> ('a word \<times> 'a word) result" where
  "decodeWords ws r K AB =
     and_then (setupS ws r K) (\<lambda>S.
     and_then (decode_loop ws S r AB) (\<lambda>(A, B).
     and_then (rd S 1) (\<lambda>s1.
     and_then (rd S 0) (\<lambda>s0.
     Inr (A - s0, B - s1)))))"

text \<open>\<open>encode\<close> and \<open>decode\<close>. The cipher exists for the three supported widths only and
  the \<open>static_assert\<close> rejects a block that is not \<open>2u\<close> bytes long; the output starts as
  \<open>2u\<close> zero bytes (\<open>ByteStream ciphertext{}\<close>). The two words are read at offsets 0 and
  \<open>u\<close> and written back at the same offsets.\<close>

definition pack_block :: "'a::len itself \<Rightarrow> byte list \<Rightarrow> ('a word \<times> 'a word) result" where
  "pack_block w block =
     and_then (packWord block 0) (\<lambda>A.
     and_then (packWord block (u w)) (\<lambda>B. Inr (A, B)))"

definition unpack_block :: "'a::len word \<times> 'a word \<Rightarrow> (byte list) result" where
  "unpack_block AB =
     (case AB of (A, B) \<Rightarrow>
      and_then (unpackWord (replicate (u TYPE('a) * 2) 0) 0 A) (\<lambda>out.
      unpackWord out (u TYPE('a)) B))"

definition encode ::
  "wide_shift \<Rightarrow> 'a::len itself \<Rightarrow> 8 word \<Rightarrow> byte list \<Rightarrow> byte list \<Rightarrow> (byte list) result option" where
  "encode ws w r K plaintext =
     (if \<not> supported w then Some (Inl UnsupportedWidth)
      else if length plaintext \<noteq> u w * 2 then Some (Inl SizeMismatch)
      else (case pack_block w plaintext of
              Inl e \<Rightarrow> Some (Inl e)
            | Inr AB \<Rightarrow>
                (case encodeWords ws r K AB of
                   None \<Rightarrow> None
                 | Some (Inl e) \<Rightarrow> Some (Inl e)
                 | Some (Inr AB') \<Rightarrow> Some (unpack_block AB'))))"

definition decode ::
  "wide_shift \<Rightarrow> 'a::len itself \<Rightarrow> 8 word \<Rightarrow> byte list \<Rightarrow> byte list \<Rightarrow> (byte list) result" where
  "decode ws w r K ciphertext =
     (if \<not> supported w then Inl UnsupportedWidth
      else if length ciphertext \<noteq> u w * 2 then Inl SizeMismatch
      else and_then (pack_block w ciphertext) (\<lambda>AB.
           and_then (decodeWords ws r K AB) unpack_block))"

section \<open>The cipher in the words of the specification\<close>

text \<open>
  The definitions of this section follow the specification, not the code: they are what
  the code is compared with. A rotation is by \<open>n mod w\<close> positions; words are packed
  from bytes least-significant byte first; the key schedule and the rounds are the
  algorithms of sections 4.4 and 4.5.
\<close>

definition rotateLeft :: "'a::len word \<Rightarrow> nat \<Rightarrow> 'a word" where
  "rotateLeft x n = word_rotl (n mod LENGTH('a)) x"

definition rotateRight :: "'a::len word \<Rightarrow> nat \<Rightarrow> 'a word" where
  "rotateRight x n = word_rotr (n mod LENGTH('a)) x"

definition le_word :: "byte list \<Rightarrow> 'a::len word" where
  "le_word bytes = horner_sum ucast 256 bytes"

definition le_bytes :: "'a::len word \<Rightarrow> byte list" where
  "le_bytes x = map (\<lambda>i. ucast (drop_bit (8 * i) x)) [0 ..< u TYPE('a)]"

text \<open>The magic constants of the specification, by width.\<close>

definition magic_P :: "'a::len word" where
  "magic_P =
     (if LENGTH('a) = 16 then 0xB7E1
      else if LENGTH('a) = 32 then 0xB7E15163
      else if LENGTH('a) = 64 then 0xB7E151628AED2A6B
      else 0)"

definition magic_Q :: "'a::len word" where
  "magic_Q =
     (if LENGTH('a) = 16 then 0x9E37
      else if LENGTH('a) = 32 then 0x9E3779B9
      else if LENGTH('a) = 64 then 0x9E3779B97F4A7C15
      else 0)"

text \<open>The L-table: \<open>c\<close> words, word \<open>k\<close> packed from the key bytes \<open>k * u, ..., k * u + u - 1\<close>
  (those past the end of the key count as 0).\<close>

definition spec_L :: "byte list \<Rightarrow> 'a::len word list" where
  "spec_L K = map (\<lambda>k. le_word (take (u TYPE('a)) (drop (k * u TYPE('a)) K)))
                [0 ..< c TYPE('a) (length K)]"

text \<open>\<open>S[0] = P\<close> and \<open>S[i] = S[i - 1] + Q\<close> for \<open>i = 1, ..., n - 1\<close>.\<close>

definition spec_S :: "nat \<Rightarrow> 'a::len word list" where
  "spec_S n = ((\<lambda>S. S @ [last S + magic_Q]) ^^ (n - 1)) [magic_P]"

text \<open>One mixing iteration: \<open>A = S[i] = rotateLeft(S[i] + A + B, 3)\<close>, then
  \<open>B = L[j] = rotateLeft(L[j] + A + B, (A + B) mod w)\<close>, then \<open>i = (i + 1) mod t\<close> and
  \<open>j = (j + 1) mod c\<close>.\<close>

definition spec_mix :: "nat \<Rightarrow> nat \<Rightarrow> 'a::len word mix \<Rightarrow> 'a word mix" where
  "spec_mix tt cc m =
     (let A = rotateLeft (tabS m ! idxi m + regA m + regB m) 3;
          B = rotateLeft (tabL m ! idxj m + A + regB m) (unat (A + regB m) mod LENGTH('a))
      in \<lparr>tabS = (tabS m)[idxi m := A], tabL = (tabL m)[idxj m := B], regA = A, regB = B,
          idxi = (idxi m + 1) mod tt, idxj = (idxj m + 1) mod cc\<rparr>)"

text \<open>The key schedule: \<open>3 * max(t, c)\<close> mixing iterations from \<open>A = B = 0\<close>, \<open>i = j = 0\<close>.\<close>

definition spec_setupS :: "8 word \<Rightarrow> byte list \<Rightarrow> 'a::len word list" where
  "spec_setupS r K =
     tabS ((spec_mix (t r) (c TYPE('a) (length K)) ^^ (3 * max (t r) (c TYPE('a) (length K))))
       \<lparr>tabS = spec_S (t r), tabL = spec_L K, regA = 0, regB = 0, idxi = 0, idxj = 0\<rparr>)"


text \<open>Round \<open>i\<close>: \<open>A = rotateLeft(A xor B, B) + S[2i]\<close>, then, with the new \<open>A\<close>,
  \<open>B = rotateLeft(B xor A, A) + S[2i + 1]\<close>.\<close>

definition spec_round :: "'a::len word list \<Rightarrow> nat \<Rightarrow> 'a word \<times> 'a word \<Rightarrow> 'a word \<times> 'a word" where
  "spec_round S i AB =
     (case AB of (A, B) \<Rightarrow>
        let A' = rotateLeft (A XOR B) (unat B) + S ! (2 * i);
            B' = rotateLeft (B XOR A') (unat A') + S ! (2 * i + 1)
        in (A', B'))"

text \<open>The forward transform of a block: pack, add \<open>S[0]\<close> and \<open>S[1]\<close>, rounds \<open>1, ..., r\<close>,
  unpack.\<close>

definition spec_encodeWords :: "'a::len word list \<Rightarrow> nat \<Rightarrow> 'a word \<times> 'a word \<Rightarrow> 'a word \<times> 'a word" where
  "spec_encodeWords S r AB =
     (case AB of (A, B) \<Rightarrow> fold (spec_round S) [1 ..< Suc r] (A + S ! 0, B + S ! 1))"

definition spec_encode :: "'a::len itself \<Rightarrow> 8 word \<Rightarrow> byte list \<Rightarrow> byte list \<Rightarrow> byte list" where
  "spec_encode w r K block =
     (case spec_encodeWords (spec_setupS r K :: 'a word list) (unat r)
             (le_word (take (u w) block), le_word (drop (u w) block)) of
        (A', B') \<Rightarrow> le_bytes A' @ le_bytes B')"


section \<open>Auxiliary predicates\<close>

text \<open>A rotation evaluates no undefined shift: the count is not a multiple of the width,
  or the promoted operand is wider than the word, or the target gives the shift a value.\<close>

definition rot_ok :: "wide_shift \<Rightarrow> 'a::len word \<Rightarrow> bool" where
  "rot_ok ws y \<longleftrightarrow> ws \<noteq> Undefined \<or> LENGTH('a) < 32 \<or> unat y mod LENGTH('a) \<noteq> 0"

text \<open>The tables of the mixing loop have their sizes and the two indices are inside.\<close>

definition mix_inv :: "nat \<Rightarrow> nat \<Rightarrow> 'w mix \<Rightarrow> bool" where
  "mix_inv tt cc m \<longleftrightarrow>
     length (tabS m) = tt \<and> length (tabL m) = cc \<and> idxi m < tt \<and> idxj m < cc"

section \<open>Basic facts\<close>

lemma and_then_Inr [simp]: "and_then (Inr v) f = f v"
  by (simp add: and_then_def)

lemma and_then_Inl [simp]: "and_then (Inl e) f = Inl e"
  by (simp add: and_then_def)

lemma and_then_eq_Inr:
  "and_then m f = Inr y \<longleftrightarrow> (\<exists>v. m = Inr v \<and> f v = Inr y)"
  by (cases m) simp_all

lemma rd_in_range [simp]: "i < length xs \<Longrightarrow> rd xs i = Inr (xs ! i)"
  by (simp add: rd_def)

lemma wr_in_range [simp]: "i < length xs \<Longrightarrow> wr xs i v = Inr (xs[i := v])"
  by (simp add: wr_def)

lemma for_each_append:
  "for_each body (xs @ ys) s = and_then (for_each body xs s) (for_each body ys)"
  by (induction xs arbitrary: s) (auto simp: and_then_def split: sum.splits)

lemma supported_cases:
  "supported TYPE('a::len) \<Longrightarrow> LENGTH('a) = 16 \<or> LENGTH('a) = 32 \<or> LENGTH('a) = 64"
  by (simp add: supported_def)

text \<open>The rotation count \<open>y & (w - 1)\<close> is \<open>y mod w\<close>, the width being a power of two.\<close>

lemma count_mask:
  fixes y :: "'a::len word"
  assumes "LENGTH('a) = 2 ^ k"
  shows "unat (y AND of_nat (LENGTH('a) - 1)) = unat y mod LENGTH('a)"
proof -
  have "(of_nat (2 ^ k - 1) :: 'a word) = mask k"
    by (simp add: mask_eq_exp_minus_1 of_nat_diff)
  then have "y AND of_nat (LENGTH('a) - 1) = take_bit k y"
    by (simp add: assms take_bit_eq_mask)
  moreover have "unat (take_bit k y) = take_bit k (unat y)"
    by (rule unsigned_take_bit_eq)
  moreover have "take_bit k (unat y) = unat y mod 2 ^ k"
    by (rule take_bit_eq_mod)
  ultimately show ?thesis
    by (simp only: assms)
qed

lemma rot_count:
  fixes y :: "'a::len word"
  assumes "supported TYPE('a)"
  shows "unat (y AND of_nat (LENGTH('a) - 1)) = unat y mod LENGTH('a)"
proof -
  from assms have "LENGTH('a) = 2 ^ 4 \<or> LENGTH('a) = 2 ^ 5 \<or> LENGTH('a) = 2 ^ 6"
    by (simp add: supported_def)
  then show ?thesis
    using count_mask by blast
qed

lemma rotl_by_shifts:
  fixes x :: "'a::len word"
  assumes "n < LENGTH('a)"
  shows "push_bit n x OR drop_bit (LENGTH('a) - n) x = word_rotl n x"
proof (rule bit_word_eqI)
  fix m assume m: "m < LENGTH('a)"
  show "bit (push_bit n x OR drop_bit (LENGTH('a) - n) x) m = bit (word_rotl n x) m"
  proof (cases "n \<le> m")
    case True
    then have "(m + (LENGTH('a) - n)) mod LENGTH('a) = m - n"
      using m assms by (simp add: mod_if)
    moreover have "\<not> bit x (m + (LENGTH('a) - n))" if "0 < n"
      using True m assms that by (auto dest!: bit_imp_le_length)
    ultimately show ?thesis
      using True m assms
      by (cases "n = 0") (auto simp: bit_or_iff bit_push_bit_iff bit_drop_bit_eq bit_word_rotl_iff ac_simps)
  next
    case False
    then have "(m + (LENGTH('a) - n)) mod LENGTH('a) = m + (LENGTH('a) - n)"
      using m assms by simp
    then show ?thesis
      using False m assms
      by (auto simp: bit_or_iff bit_push_bit_iff bit_drop_bit_eq bit_word_rotl_iff ac_simps)
  qed
qed

lemma rotr_by_shifts:
  fixes x :: "'a::len word"
  assumes "n < LENGTH('a)"
  shows "drop_bit n x OR push_bit (LENGTH('a) - n) x = word_rotr n x"
proof (rule bit_word_eqI)
  fix m assume m: "m < LENGTH('a)"
  show "bit (drop_bit n x OR push_bit (LENGTH('a) - n) x) m = bit (word_rotr n x) m"
  proof (cases "m + n < LENGTH('a)")
    case True
    then have "(m + n) mod LENGTH('a) = m + n" by simp
    then show ?thesis
      using True m assms
      by (auto simp: bit_or_iff bit_push_bit_iff bit_drop_bit_eq bit_word_rotr_iff ac_simps)
  next
    case False
    then have "(m + n) mod LENGTH('a) = m + n - LENGTH('a)"
      using m assms by (simp add: mod_if)
    moreover have "m - (LENGTH('a) - n) = m + n - LENGTH('a)"
      using False m assms by simp
    moreover have "\<not> bit x (m + n)"
      using False by (auto dest!: bit_imp_le_length)
    ultimately show ?thesis
      using False m assms
      by (auto simp: bit_or_iff bit_push_bit_iff bit_drop_bit_eq bit_word_rotr_iff ac_simps)
  qed
qed

section \<open>Rotations\<close>

lemma left_shift_eq:
  fixes x y :: "'a::len word"
  assumes "supported TYPE('a)"
  shows "left_shift ws x y =
    (if rot_ok ws y then Inr (word_rotl (unat y mod LENGTH('a)) x) else Inl UndefinedShift)"
proof -
  let ?n = "unat y mod LENGTH('a)"
  let ?p = "promoted_bits TYPE('a)"
  have n: "?n < LENGTH('a)" by simp
  have rot: "push_bit ?n x OR drop_bit (LENGTH('a) - ?n) x = word_rotl ?n x"
    by (rule rotl_by_shifts [OF n])
  have zero: "word_rotl 0 x = x" by (rule bit_word_eqI) (simp add: bit_word_rotl_iff)
  have unf: "left_shift ws x y = and_then (shl ws x ?n) (\<lambda>hi. and_then (shr ws x (LENGTH('a) - ?n)) (\<lambda>lo. Inr (hi OR lo)))"
    by (simp only: left_shift_def Let_def rot_count [OF assms])
  have pb: "?p = max 32 LENGTH('a)" by (simp add: promoted_bits_def)
  have small: "?n < ?p" using n unfolding pb by linarith
  show ?thesis
  proof (cases "LENGTH('a) - ?n < ?p")
    case True
    then have "rot_ok ws y"
      unfolding pb rot_ok_def by (cases "LENGTH('a) < 32") auto
    then show ?thesis
      using True small rot by (simp add: unf shl_def shr_def)
  next
    case False
    then have z: "?n = 0" and p: "?p = LENGTH('a)" and big: "\<not> LENGTH('a) < 32"
      unfolding pb by (auto simp: max_def split: if_splits)
    show ?thesis
      unfolding unf using zero big
      by (cases ws) (simp_all add: shl_def shr_def z p rot_ok_def)
  qed
qed

lemma right_shift_eq:
  fixes x y :: "'a::len word"
  assumes "supported TYPE('a)"
  shows "right_shift ws x y =
    (if rot_ok ws y then Inr (word_rotr (unat y mod LENGTH('a)) x) else Inl UndefinedShift)"
proof -
  let ?n = "unat y mod LENGTH('a)"
  let ?p = "promoted_bits TYPE('a)"
  have n: "?n < LENGTH('a)" by simp
  have rot: "drop_bit ?n x OR push_bit (LENGTH('a) - ?n) x = word_rotr ?n x"
    by (rule rotr_by_shifts [OF n])
  have zero: "word_rotr 0 x = x" by (rule bit_word_eqI) (simp add: bit_word_rotr_iff)
  have unf: "right_shift ws x y = and_then (shr ws x ?n) (\<lambda>lo. and_then (shl ws x (LENGTH('a) - ?n)) (\<lambda>hi. Inr (lo OR hi)))"
    by (simp only: right_shift_def Let_def rot_count [OF assms])
  have pb: "?p = max 32 LENGTH('a)" by (simp add: promoted_bits_def)
  have small: "?n < ?p" using n unfolding pb by linarith
  show ?thesis
  proof (cases "LENGTH('a) - ?n < ?p")
    case True
    then have "rot_ok ws y"
      unfolding pb rot_ok_def by (cases "LENGTH('a) < 32") auto
    then show ?thesis
      using True small rot by (simp add: unf shl_def shr_def)
  next
    case False
    then have z: "?n = 0" and p: "?p = LENGTH('a)" and big: "\<not> LENGTH('a) < 32"
      unfolding pb by (auto simp: max_def split: if_splits)
    show ?thesis
      unfolding unf using zero big
      by (cases ws) (simp_all add: shl_def shr_def z p rot_ok_def)
  qed
qed

lemma xor_cancel_right: "(a XOR b) XOR b = (a :: 'a::len word)"
  by (simp add: xor.assoc)

lemma round_inverse:
  fixes S :: "'a::len word list"
  assumes sup: "supported TYPE('a)" and enc: "encode_round ws S i (A, B) = Inr (A', B')"
  shows "decode_round ws S i (A', B') = Inr (A, B)"
proof -
  let ?w = "LENGTH('a)"
  from enc have okB: "rot_ok ws B" and i0: "2 * unat i < length S"
    by (auto simp: encode_round_def left_shift_eq [OF sup] and_then_eq_Inr rd_def Let_def
        split: if_splits)
  with enc have A': "A' = word_rotl (unat B mod ?w) (A XOR B) + S ! (2 * unat i)"
    by (auto simp: encode_round_def left_shift_eq [OF sup] and_then_eq_Inr Let_def
        split: if_splits)
  from enc okB i0 have okA: "rot_ok ws A'" and i1: "2 * unat i + 1 < length S"
    by (auto simp: encode_round_def left_shift_eq [OF sup] and_then_eq_Inr rd_def Let_def A'
        split: if_splits)
  with enc okB i0 have B': "B' = word_rotl (unat A' mod ?w) (B XOR A') + S ! (2 * unat i + 1)"
    by (auto simp: encode_round_def left_shift_eq [OF sup] and_then_eq_Inr Let_def A'
        split: if_splits)
  have b: "word_rotr (unat A' mod ?w) (B' - S ! (2 * unat i + 1)) XOR A' = B"
    by (simp add: B' xor_cancel_right)
  have a: "word_rotr (unat B mod ?w) (A' - S ! (2 * unat i)) XOR B = A"
    by (simp add: A' xor_cancel_right)
  show ?thesis
    using okA okB i0 i1 a b
    by (simp add: decode_round_def right_shift_eq [OF sup] Let_def)
qed

section \<open>Byte packing\<close>

lemma u_bits: "supported TYPE('a::len) \<Longrightarrow> LENGTH('a) = 8 * u TYPE('a)"
  by (auto simp: supported_def u_def)

lemma u_pos: "supported TYPE('a::len) \<Longrightarrow> 0 < u TYPE('a)"
  by (auto simp: supported_def u_def)

lemma u_le_8: "supported TYPE('a::len) \<Longrightarrow> u TYPE('a) \<le> 8"
  by (auto simp: supported_def u_def)

lemma le_word_Nil [simp]: "le_word [] = 0"
  by (simp add: le_word_def)

lemma le_word_Cons: "le_word (x # xs) = push_bit 8 (le_word xs) + ucast x"
  by (simp add: le_word_def push_bit_eq_mult)

lemma packWord_loop:
  assumes "k \<le> u TYPE('a::len)" and "start + u TYPE('a) \<le> length bs"
  shows "for_each (\<lambda>i word. and_then (rd bs (start + u TYPE('a) - i)) (\<lambda>byte.
            Inr (push_bit 8 word + ucast byte))) [1 ..< Suc k] (0 :: 'a word)
         = Inr (le_word (take k (drop (start + u TYPE('a) - k) bs)))"
  using assms(1)
proof (induction k)
  case 0
  then show ?case by simp
next
  case (Suc k)
  let ?p = "start + u TYPE('a) - Suc k"
  have p: "?p < length bs" and nxt: "Suc ?p = start + u TYPE('a) - k"
    using Suc.prems assms(2) by simp_all
  have "take (Suc k) (drop ?p bs) = bs ! ?p # take k (drop (Suc ?p) bs)"
    using p by (simp add: Cons_nth_drop_Suc [symmetric])
  then have split: "take (Suc k) (drop ?p bs) = bs ! ?p # take k (drop (start + u TYPE('a) - k) bs)"
    by (simp only: nxt)
  have "[1 ..< Suc (Suc k)] = [1 ..< Suc k] @ [Suc k]" by simp
  then show ?case
    using Suc p by (simp only: for_each_append split le_word_Cons) simp
qed

lemma packWord_eq:
  assumes "start + u TYPE('a::len) \<le> length bs"
  shows "(packWord bs start :: 'a word result) = Inr (le_word (take (u TYPE('a)) (drop start bs)))"
  using packWord_loop [OF le_refl assms] by (simp add: packWord_def)

lemma byte_of_word:
  fixes x :: "'a::len word"
  assumes "LENGTH('a) \<le> 64"
  shows "(ucast (drop_bit (i * 8) ((ucast x :: 64 word) AND push_bit (i * 8) 0xFF)) :: byte)
         = ucast (drop_bit (8 * i) x)"
proof (rule bit_word_eqI)
  fix n assume "n < LENGTH(8)"
  then have n: "n < 8" by simp
  have ff: "(0xFF :: 64 word) = mask 8" by (simp add: mask_eq_exp_minus_1)
  have "bit x (i * 8 + n) \<Longrightarrow> i * 8 + n < 64"
    using assms by (auto dest!: bit_imp_le_length)
  then show "bit (ucast (drop_bit (i * 8) ((ucast x :: 64 word) AND push_bit (i * 8) 0xFF)) :: byte) n
      = bit (ucast (drop_bit (8 * i) x) :: byte) n"
    using n
    by (auto simp: bit_ucast_iff bit_drop_bit_eq bit_and_iff bit_push_bit_iff ff bit_mask_iff ac_simps)
qed

lemma unpackWord_loop:
  fixes x :: "'a::len word" and out :: "byte list"
  assumes "start + n \<le> length out" and "k \<le> n"
  shows "for_each (\<lambda>i out. wr out (start + i) (ucast (drop_bit (8 * i) x))) [0 ..< k] out
         = Inr (take start out @ map (\<lambda>i. ucast (drop_bit (8 * i) x)) [0 ..< k] @ drop (start + k) out)"
  using assms(2)
proof (induction k)
  case 0
  then show ?case by simp
next
  case (Suc k)
  let ?cur = "take start out @ map (\<lambda>i. ucast (drop_bit (8 * i) x) :: byte) [0 ..< k] @ drop (start + k) out"
  have len: "length ?cur = length out" and k: "start + k < length out"
    using Suc.prems assms(1) by simp_all
  have upd: "?cur[start + k := v] =
      take start out @ map (\<lambda>i. ucast (drop_bit (8 * i) x)) [0 ..< k] @ v # drop (start + Suc k) out" for v
  proof -
    have "drop (start + k) out = out ! (start + k) # drop (start + Suc k) out"
      using k by (simp add: Cons_nth_drop_Suc)
    then show ?thesis
      using assms(1) Suc.prems by (simp add: list_update_append)
  qed
  have cur: "for_each (\<lambda>i out. wr out (start + i) (ucast (drop_bit (8 * i) x))) [0 ..< k] out = Inr ?cur"
    using Suc by simp
  show ?case
    unfolding upt_Suc_append [OF le0] for_each_append cur
    using k len by (simp add: upd del: upt_Suc)
qed

lemma unpackWord_eq:
  fixes x :: "'a::len word" and out :: "byte list"
  assumes "supported TYPE('a)" and "start + u TYPE('a) \<le> length out"
  shows "unpackWord out start x = Inr (take start out @ le_bytes x @ drop (start + u TYPE('a)) out)"
proof -
  have "LENGTH('a) \<le> 64" using assms(1) by (auto simp: supported_def)
  then have "unpackWord out start x =
      for_each (\<lambda>i out. wr out (start + i) (ucast (drop_bit (8 * i) x))) [0 ..< u TYPE('a)] out"
    by (simp only: unpackWord_def byte_of_word)
  with unpackWord_loop [OF assms(2) le_refl, of x] show ?thesis
    by (simp add: le_bytes_def)
qed

lemma le_word_of_int: "(le_word bs :: 'a::len word) = word_of_int (horner_sum uint (2 ^ 8) bs)"
  by (induction bs) (simp_all add: le_word_def)

lemma bit_le_word:
  "bit (le_word bs :: 'a::len word) n \<longleftrightarrow>
     n < LENGTH('a) \<and> n div 8 < length bs \<and> bit (bs ! (n div 8)) (n mod 8)"
  using bit_horner_sum_uint_exp_iff [where ?'a = 8, of bs n]
  by (simp add: le_word_of_int bit_word_of_int_iff)

lemma length_le_bytes [simp]: "length (le_bytes (x :: 'a::len word)) = u TYPE('a)"
  by (simp add: le_bytes_def)

lemma nth_le_bytes:
  "i < u TYPE('a) \<Longrightarrow> le_bytes (x :: 'a::len word) ! i = ucast (drop_bit (8 * i) x)"
  by (simp add: le_bytes_def)

lemma le_word_le_bytes:
  fixes x :: "'a::len word"
  assumes "supported TYPE('a)"
  shows "le_word (le_bytes x) = x"
proof (rule bit_word_eqI)
  fix n assume n: "n < LENGTH('a)"
  then have d: "n div 8 < u TYPE('a)" using u_bits [OF assms] by simp
  have "8 * (n div 8) + n mod 8 = n" by simp
  then show "bit (le_word (le_bytes x) :: 'a word) n = bit x n"
    using n d by (simp add: bit_le_word nth_le_bytes bit_ucast_iff bit_drop_bit_eq)
qed

lemma le_bytes_le_word:
  assumes "supported TYPE('a::len)" and "length bs = u TYPE('a)"
  shows "le_bytes (le_word bs :: 'a word) = bs"
proof (rule nth_equalityI)
  show "length (le_bytes (le_word bs :: 'a word)) = length bs" using assms(2) by simp
next
  fix i assume "i < length (le_bytes (le_word bs :: 'a word))"
  then have i: "i < u TYPE('a)" by simp
  show "le_bytes (le_word bs :: 'a word) ! i = bs ! i"
  proof (rule bit_word_eqI)
    fix n assume "n < LENGTH(8)"
    then have n: "n < 8" by simp
    then have "8 * i + n < LENGTH('a)" and "(8 * i + n) div 8 = i" and "(8 * i + n) mod 8 = n"
      using i u_bits [OF assms(1)] by simp_all
    then show "bit (le_bytes (le_word bs :: 'a word) ! i) n = bit (bs ! i) n"
      using i n assms(2)
      by (simp add: nth_le_bytes bit_ucast_iff bit_drop_bit_eq bit_le_word)
  qed
qed

lemma pack_block_eq:
  assumes "length block = u TYPE('a::len) * 2"
  shows "pack_block TYPE('a) block =
           Inr (le_word (take (u TYPE('a)) block), le_word (drop (u TYPE('a)) block))"
proof -
  have "(packWord block 0 :: 'a word result) = Inr (le_word (take (u TYPE('a)) block))"
    using packWord_eq [of 0 block, where ?'a = 'a] assms by simp
  moreover have "(packWord block (u TYPE('a)) :: 'a word result) = Inr (le_word (drop (u TYPE('a)) block))"
    using packWord_eq [of "u TYPE('a)" block, where ?'a = 'a] assms by simp
  ultimately show ?thesis
    by (simp add: pack_block_def)
qed

lemma unpack_block_eq:
  fixes A B :: "'a::len word"
  assumes "supported TYPE('a)"
  shows "unpack_block (A, B) = Inr (le_bytes A @ le_bytes B)"
proof -
  let ?u = "u TYPE('a)"
  have "unpackWord (replicate (?u * 2) 0) 0 A = Inr (le_bytes A @ replicate ?u 0)"
    using unpackWord_eq [OF assms, of 0 "replicate (?u * 2) 0" A] by simp
  moreover have "unpackWord (le_bytes A @ replicate ?u 0) ?u B = Inr (le_bytes A @ le_bytes B)"
    using unpackWord_eq [OF assms, of ?u "le_bytes A @ replicate ?u 0" B] by simp
  ultimately show ?thesis
    by (simp add: unpack_block_def)
qed

lemma byte_of_le_word:
  assumes "supported TYPE('a::len)" and "length bs = u TYPE('a)" and "i < u TYPE('a)"
  shows "ucast (drop_bit (8 * i) (le_word bs :: 'a word)) = bs ! i"
  using le_bytes_le_word [OF assms(1,2)] nth_le_bytes [OF assms(3), of "le_word bs"] by simp

section \<open>Key schedule\<close>


lemma c_pos: "0 < u w \<Longrightarrow> 0 < c w b"
  by (simp add: c_def div_greater_zero_iff)

lemma c_covers:
  assumes "0 < u w" and "i < b"
  shows "i div u w < c w b"
proof -
  have "i div u w \<le> (b - 1) div u w" using assms(2) by (intro div_le_mono) simp
  also have "\<dots> < (b - 1 + u w) div u w" using assms(1) by simp
  also have "b - 1 + u w = max b 1 + u w - 1" using assms(2) by simp
  finally show ?thesis by (simp add: c_def)
qed


text \<open>The L-table while the key is loaded: the bytes with index \<open>j\<close> or more are in.\<close>

lemma load_key_loop:
  fixes K :: "byte list"
  assumes u: "0 < u TYPE('a::len)" and j: "j \<le> length K"
  shows "for_each (load_key K) (rev [j ..< length K]) (replicate (c TYPE('a) (length K)) (0 :: 'a word))
         = Inr (map (\<lambda>k. le_word (drop (j - k * u TYPE('a)) (take (u TYPE('a)) (drop (k * u TYPE('a)) K))))
                  [0 ..< c TYPE('a) (length K)])"
  using j
proof (induction j rule: inc_induct)
  case base
  have "map (\<lambda>k. 0 :: 'a word) [0 ..< n] = replicate n 0" for n
    by (induction n) (simp_all add: replicate_append_same)
  then show ?case by simp
next
  case (step j)
  let ?u = "u TYPE('a)" and ?c = "c TYPE('a) (length K)"
  let ?blk = "\<lambda>k. take ?u (drop (k * ?u) K)"
  let ?L = "\<lambda>j. map (\<lambda>k. le_word (drop (j - k * ?u) (?blk k)) :: 'a word) [0 ..< ?c]"
  let ?k = "j div ?u"
  have k: "?k < ?c" using c_covers [OF u step.hyps(2)] .
  define p where "p = ?k * ?u"
  have lo: "p \<le> j" by (simp add: p_def)
  have hi: "j < p + ?u" using u by (simp add: p_def dividend_less_div_times add.commute)
  have jp: "j - p < ?u" "p + (j - p) = j" "j - p < length K - p"
    using lo hi step.hyps(2) by arith+
  have inblk: "j - p < length (take ?u (drop p K))"
    using jp by simp
  have byte: "take ?u (drop p K) ! (j - p) = K ! j"
    using jp by simp
  have new: "push_bit 8 (le_word (drop (Suc j - ?k * ?u) (?blk ?k)) :: 'a word) + ucast (K ! j)
             = le_word (drop (j - ?k * ?u) (?blk ?k))"
  proof -
    have "drop (j - p) (take ?u (drop p K)) = K ! j # drop (Suc (j - p)) (take ?u (drop p K))"
      using inblk byte by (metis Cons_nth_drop_Suc)
    moreover have "Suc (j - p) = Suc j - p" using lo by simp
    ultimately show ?thesis unfolding p_def by (simp add: le_word_Cons)
  qed
  have other: "le_word (drop (Suc j - k * ?u) (?blk k)) = (le_word (drop (j - k * ?u) (?blk k)) :: 'a word)"
    if "k \<noteq> ?k" for k
  proof (cases "k < ?k")
    case True
    then have "Suc k * ?u \<le> p" unfolding p_def by (intro mult_le_mono1) simp
    then have "?u \<le> j - k * ?u" using lo by simp
    then show ?thesis by simp
  next
    case False
    with that have "Suc ?k * ?u \<le> k * ?u" by (intro mult_le_mono1) simp
    then have "p + ?u \<le> k * ?u" by (simp add: p_def)
    then have "Suc j - k * ?u = 0" and "j - k * ?u = 0" using hi by simp_all
    then show ?thesis by simp
  qed
  have upd: "(?L (Suc j))[?k := le_word (drop (j - ?k * ?u) (?blk ?k))] = ?L j"
  proof (rule nth_equalityI)
    show "length ((?L (Suc j))[?k := le_word (drop (j - ?k * ?u) (?blk ?k))]) = length (?L j)" by simp
  next
    fix i assume "i < length ((?L (Suc j))[?k := le_word (drop (j - ?k * ?u) (?blk ?k))])"
    then have i: "i < ?c" by simp
    show "(?L (Suc j))[?k := le_word (drop (j - ?k * ?u) (?blk ?k))] ! i = ?L j ! i"
      using i k other [of i] by (cases "i = ?k") (simp_all del: upt_Suc)
  qed
  have step_j: "load_key K j (?L (Suc j)) = Inr (?L j)"
    using k step.hyps(2) new upd by (simp add: load_key_def del: upt_Suc)
  have "rev [j ..< length K] = rev [Suc j ..< length K] @ [j]"
    using step.hyps(2) by (simp add: upt_conv_Cons)
  then show ?case
    using step.IH step_j by (simp add: for_each_append)
qed

lemma load_key_eq:
  fixes K :: "byte list"
  assumes "0 < u TYPE('a::len)"
  shows "for_each (load_key K) (rev [0 ..< length K]) (replicate (c TYPE('a) (length K)) 0)
         = Inr (spec_L K :: 'a word list)"
  using load_key_loop [OF assms le0, of K] by (simp add: spec_L_def)

lemma length_spec_L [simp]: "length (spec_L K :: 'a::len word list) = c TYPE('a) (length K)"
  by (simp add: spec_L_def)

lemma spec_S_Suc: "0 < n \<Longrightarrow> spec_S (Suc n) = spec_S n @ [last (spec_S n) + magic_Q]"
  by (cases n) (simp_all add: spec_S_def)

lemma length_spec_S [simp]: "0 < n \<Longrightarrow> length (spec_S n :: 'a::len word list) = n"
proof (induction n)
  case 0
  then show ?case by simp
next
  case (Suc n)
  then show ?case
    by (cases "n = 0") (simp_all add: spec_S_Suc, simp add: spec_S_def)
qed

lemma spec_S_nonempty: "0 < n \<Longrightarrow> (spec_S n :: 'a::len word list) \<noteq> []"
proof
  assume "0 < n" and "(spec_S n :: 'a word list) = []"
  then have "length (spec_S n :: 'a word list) = 0" by simp
  with \<open>0 < n\<close> show False by simp
qed

lemma next_S_loop:
  assumes "0 < k" and "k \<le> n"
  shows "for_each (next_S magic_Q) [1 ..< k] ((replicate n 0)[0 := magic_P])
         = Inr (spec_S k @ replicate (n - k) (0 :: 'a::len word))"
  using assms
proof (induction k)
  case 0
  then show ?case by simp
next
  case (Suc k)
  show ?case
  proof (cases "k = 0")
    case True
    have "(replicate n (0 :: 'a word))[0 := magic_P] = magic_P # replicate (n - 1) 0"
      using Suc.prems by (cases n) simp_all
    then show ?thesis using True by (simp add: spec_S_def)
  next
    case False
    then have k: "0 < k" "k \<le> n" "k < n" using Suc.prems by simp_all
    let ?S = "spec_S k :: 'a word list"
    have len: "length ?S = k" using k by simp
    have prev: "(?S @ replicate (n - k) 0) ! (k - 1) = last ?S"
      using k len by (simp add: nth_append last_conv_nth spec_S_nonempty)
    have rep: "replicate (n - k) (0 :: 'a word) = 0 # replicate (n - Suc k) 0"
      using k by (cases "n - k") simp_all
    have upd: "(?S @ replicate (n - k) 0)[k := v] = ?S @ v # replicate (n - Suc k) 0" for v
      using len rep by (simp add: list_update_append)
    have "next_S magic_Q k (?S @ replicate (n - k) 0) = Inr (spec_S (Suc k) @ replicate (n - Suc k) 0)"
      using k len prev upd by (simp add: next_S_def spec_S_Suc)
    moreover have "[1 ..< Suc k] = [1 ..< k] @ [k]" using k by simp
    ultimately show ?thesis
      using Suc.IH k by (simp add: for_each_append del: upt_Suc)
  qed
qed

lemma magic_of_supported:
  assumes "supported TYPE('a::len)"
  shows "(WordT_P :: 'a word result) = Inr magic_P" and "(WordT_Q :: 'a word result) = Inr magic_Q"
  using assms by (auto simp: supported_def WordT_P_def WordT_Q_def magic_P_def magic_Q_def)

lemma t_pos [simp]: "0 < t r"
  by (simp add: t_def)

lemma init_S_eq:
  "for_each (next_S magic_Q) [1 ..< t r] ((replicate (t r) 0)[0 := magic_P])
   = Inr (spec_S (t r) :: 'a::len word list)"
  using next_S_loop [of "t r" "t r", where ?'a = 'a] by simp

lemma rot_ok_target: "ws \<noteq> Undefined \<or> LENGTH('a::len) = 16 \<Longrightarrow> rot_ok ws (y :: 'a word)"
  by (auto simp: rot_ok_def)

lemma left_shift_rotateLeft:
  fixes x y :: "'a::len word"
  assumes "supported TYPE('a)" and "rot_ok ws y"
  shows "left_shift ws x y = Inr (rotateLeft x (unat y))"
  using assms(2) by (simp add: left_shift_eq [OF assms(1)] rotateLeft_def)

lemma right_shift_rotateRight:
  fixes x y :: "'a::len word"
  assumes "supported TYPE('a)" and "rot_ok ws y"
  shows "right_shift ws x y = Inr (rotateRight x (unat y))"
  using assms(2) by (simp add: right_shift_eq [OF assms(1)] rotateRight_def)

lemma rotateLeft_mod [simp]: "rotateLeft x (n mod LENGTH('a)) = rotateLeft (x :: 'a::len word) n"
  by (simp add: rotateLeft_def)

lemma take_bit_3:
  assumes "supported TYPE('a::len)"
  shows "take_bit LENGTH('a) (3 :: nat) = 3"
proof -
  have "2 \<le> LENGTH('a)" using assms by (auto simp: supported_def)
  then have "(2 :: nat) ^ 2 \<le> 2 ^ LENGTH('a)" by (intro power_increasing) simp_all
  then have "(3 :: nat) < 2 ^ LENGTH('a)" by simp
  then show ?thesis by (rule take_bit_nat_eq_self)
qed

lemma mix_step_eq:
  fixes m :: "'a::len word mix"
  assumes "supported TYPE('a)" and "ws \<noteq> Undefined \<or> LENGTH('a) = 16"
    and "idxi m < length (tabS m)" and "idxj m < length (tabL m)"
  shows "mix_step ws tt cc m = Inr (spec_mix tt cc m)"
  using assms(3,4)
  by (simp add: mix_step_def spec_mix_def Let_def take_bit_3 [OF assms(1)]
      left_shift_rotateLeft [OF assms(1) rot_ok_target [OF assms(2)]])

lemma spec_mix_inv:
  "mix_inv tt cc m \<Longrightarrow> mix_inv tt cc (spec_mix tt cc m)"
  by (auto simp: mix_inv_def spec_mix_def Let_def)

lemma spec_mix_funpow_inv:
  "mix_inv tt cc m \<Longrightarrow> mix_inv tt cc ((spec_mix tt cc ^^ n) m)"
  by (induction n) (simp_all add: spec_mix_inv)

lemma mix_loop_eq:
  fixes m :: "'a::len word mix"
  assumes "supported TYPE('a)" and "ws \<noteq> Undefined \<or> LENGTH('a) = 16"
  shows "mix_inv tt cc m \<Longrightarrow>
         for_each (\<lambda>k. mix_step ws tt cc) ks m = Inr ((spec_mix tt cc ^^ length ks) m)"
proof (induction ks arbitrary: m)
  case Nil
  then show ?case by simp
next
  case (Cons k ks)
  have "mix_step ws tt cc m = Inr (spec_mix tt cc m)"
    using Cons.prems by (intro mix_step_eq [OF assms]) (simp_all add: mix_inv_def)
  then show ?case
    using Cons.IH [OF spec_mix_inv [OF Cons.prems]] by (simp add: funpow_swap1)
qed

lemma setupS_eq:
  assumes "supported TYPE('a::len)" and "ws \<noteq> Undefined \<or> LENGTH('a) = 16"
  shows "setupS ws r K = Inr (spec_setupS r K :: 'a word list)"
proof -
  let ?c = "c TYPE('a) (length K)"
  let ?m0 = "\<lparr>tabS = spec_S (t r) :: 'a word list, tabL = spec_L K, regA = 0, regB = 0,
              idxi = 0, idxj = 0\<rparr>"
  have u: "0 < u TYPE('a)" using assms(1) by (auto simp: supported_def u_def)
  have inv: "mix_inv (t r) ?c ?m0"
    using c_pos [OF u] by (simp add: mix_inv_def)
  have "for_each (\<lambda>k. mix_step ws (t r) ?c) [0 ..< 3 * max (t r) ?c] ?m0
        = Inr ((spec_mix (t r) ?c ^^ (3 * max (t r) ?c)) ?m0)"
    using mix_loop_eq [OF assms inv, of "[0 ..< 3 * max (t r) ?c]"] by simp
  then show ?thesis
    by (simp add: setupS_def Let_def magic_of_supported [OF assms(1)] load_key_eq [OF u]
        init_S_eq [unfolded One_nat_def] spec_setupS_def)
qed

lemma length_spec_setupS:
  assumes "supported TYPE('a::len)"
  shows "length (spec_setupS r K :: 'a word list) = t r"
proof -
  let ?c = "c TYPE('a) (length K)"
  let ?m0 = "\<lparr>tabS = spec_S (t r) :: 'a word list, tabL = spec_L K, regA = 0, regB = 0,
              idxi = 0, idxj = 0\<rparr>"
  have u: "0 < u TYPE('a)" using assms(1) by (auto simp: supported_def u_def)
  have "mix_inv (t r) ?c ?m0"
    using c_pos [OF u] by (simp add: mix_inv_def)
  from spec_mix_funpow_inv [OF this, of "3 * max (t r) ?c"] show ?thesis
    by (simp add: spec_setupS_def mix_inv_def)
qed

section \<open>Rounds\<close>

lemma encode_round_eq:
  fixes S :: "'a::len word list"
  assumes "supported TYPE('a)" and "ws \<noteq> Undefined \<or> LENGTH('a) = 16"
    and "2 * unat i + 1 < length S"
  shows "encode_round ws S i AB = Inr (spec_round S (unat i) AB)"
  using assms(3)
  by (cases AB)
     (simp add: encode_round_def spec_round_def Let_def
        left_shift_rotateLeft [OF assms(1) rot_ok_target [OF assms(2)]])

lemma unat_byte_Suc:
  fixes i r :: "8 word"
  assumes "i \<le> r" and "r \<noteq> 255"
  shows "unat (i + 1) = Suc (unat i)"
proof -
  have "unat r \<noteq> 255"
  proof
    assume "unat r = 255"
    then have "of_nat (unat r) = (255 :: 8 word)" by simp
    then show False using assms(2) by simp
  qed
  moreover have "unat r < 256" using unsigned_less [of r, where ?'a = nat] by simp
  moreover have "unat i \<le> unat r" using assms(1) by (simp add: word_le_nat_alt)
  ultimately have "unat i + unat (1 :: 8 word) < 2 ^ LENGTH(8)" by simp
  then have "unat (i + 1) = unat i + unat (1 :: 8 word)" by (simp only: unat_add_lem)
  then show ?thesis by simp
qed

lemma encode_loop_for_each:
  fixes S :: "'a::len word list"
  assumes "r \<noteq> 255"
  shows "unat i \<le> Suc (unat r) \<Longrightarrow>
         encode_loop ws S r i AB =
           Some (for_each (encode_round ws S) (map of_nat [unat i ..< Suc (unat r)]) AB)"
proof (induction "Suc (unat r) - unat i" arbitrary: i AB)
  case 0
  then have "unat i = Suc (unat r)" by simp
  then have "\<not> i \<le> r" by (simp add: word_le_nat_alt)
  then show ?case using \<open>unat i = Suc (unat r)\<close> by (simp add: encode_loop.simps)
next
  case (Suc n)
  then have "unat i \<le> unat r" by arith
  then have le: "i \<le> r" by (simp add: word_le_nat_alt)
  have nxt: "unat (i + 1) = Suc (unat i)" by (rule unat_byte_Suc [OF le assms])
  have lst: "[unat i ..< Suc (unat r)] = unat i # [Suc (unat i) ..< Suc (unat r)]"
    using \<open>unat i \<le> unat r\<close> by (simp add: upt_conv_Cons)
  have IH: "encode_loop ws S r (i + 1) AB' =
      Some (for_each (encode_round ws S) (map of_nat [Suc (unat i) ..< Suc (unat r)]) AB')" for AB'
    using Suc.hyps(1) [of "i + 1" AB'] Suc.hyps(2) \<open>unat i \<le> unat r\<close> nxt by simp
  have "encode_loop ws S r i AB =
      (case encode_round ws S i AB of
         Inl e \<Rightarrow> Some (Inl e)
       | Inr AB' \<Rightarrow> encode_loop ws S r (i + 1) AB')"
    by (subst encode_loop.simps) (simp add: le)
  then show ?case
    unfolding lst by (simp add: IH and_then_def split: sum.splits del: upt_Suc)
qed


lemma unat_of_nat_byte: "k < 256 \<Longrightarrow> unat (of_nat k :: 8 word) = k"
  by (simp add: unat_of_nat take_bit_nat_eq_self)

lemma for_each_rounds_eq:
  fixes S :: "'a::len word list"
  assumes "supported TYPE('a)" and "ws \<noteq> Undefined \<or> LENGTH('a) = 16"
  shows "(\<forall>k \<in> set ks. k < 256 \<and> 2 * k + 1 < length S) \<Longrightarrow>
         for_each (encode_round ws S) (map of_nat ks) AB = Inr (fold (spec_round S) ks AB)"
proof (induction ks arbitrary: AB)
  case Nil
  then show ?case by simp
next
  case (Cons k ks)
  then have k: "unat (of_nat k :: 8 word) = k" and i: "2 * k + 1 < length S"
    by (simp_all add: unat_of_nat_byte)
  have "encode_round ws S (of_nat k) AB = Inr (spec_round S k AB)"
    using encode_round_eq [OF assms, of "of_nat k" S AB] k i by simp
  then show ?case using Cons by simp
qed

lemma unat_byte_less: "unat (r :: 8 word) < 256"
  using unsigned_less [of r, where ?'a = nat] by simp

lemma encode_loop_eq:
  fixes S :: "'a::len word list"
  assumes "supported TYPE('a)" and "ws \<noteq> Undefined \<or> LENGTH('a) = 16"
    and "r \<noteq> 255" and "length S = t r"
  shows "encode_loop ws S r 1 AB = Some (Inr (fold (spec_round S) [1 ..< Suc (unat r)] AB))"
proof -
  have "\<forall>k \<in> set [1 ..< Suc (unat r)]. k < 256 \<and> 2 * k + 1 < length S"
    using unat_byte_less [of r] assms(4) by (auto simp: t_def)
  from for_each_rounds_eq [OF assms(1,2) this]
  show ?thesis
    using encode_loop_for_each [OF assms(3), of 1 ws S AB] by simp
qed

lemma encodeWords_eq:
  assumes "supported TYPE('a::len)" and "ws \<noteq> Undefined \<or> LENGTH('a) = 16" and "r \<noteq> 255"
  shows "encodeWords ws r K AB = Some (Inr (spec_encodeWords (spec_setupS r K :: 'a word list) (unat r) AB))"
proof -
  obtain A B where AB: "AB = (A, B)" by (cases AB)
  let ?S = "spec_setupS r K :: 'a word list"
  have len: "length ?S = t r" by (rule length_spec_setupS [OF assms(1)])
  then have "rd ?S 0 = Inr (?S ! 0)" and "rd ?S 1 = Inr (?S ! 1)"
    by (simp_all add: t_def rd_def)
  then have first: "and_then (rd ?S 0) (\<lambda>s0. and_then (rd ?S 1) (\<lambda>s1. Inr (A + s0, B + s1)))
      = Inr (A + ?S ! 0, B + ?S ! 1)"
    by (simp only: and_then_Inr)
  show ?thesis
    unfolding AB encodeWords_def
    by (simp only: prod.case setupS_eq [OF assms(1,2)] sum.case first
        encode_loop_eq [OF assms len] spec_encodeWords_def)
qed

lemma encode_eq:
  assumes "supported TYPE('a::len)" and "ws \<noteq> Undefined \<or> LENGTH('a) = 16" and "r \<noteq> 255"
    and "length block = u TYPE('a) * 2"
  shows "encode ws TYPE('a) r K block = Some (Inr (spec_encode TYPE('a) r K block))"
  using assms(1,4)
  by (simp add: encode_def pack_block_eq encodeWords_eq [OF assms(1-3)] spec_encode_def
      unpack_block_eq split: prod.splits)

text \<open>The loop of \<open>encodeWords\<close> with \<open>r = 255\<close>: the test \<open>i <= r\<close> holds for every byte, so
  the loop is left through a fault only.\<close>

lemma byte_le_255: "(i :: 8 word) \<le> 255"
proof -
  have "(255 :: 8 word) = - 1" by simp
  then show ?thesis by (simp only: word_order.extremum)
qed

lemma encode_loop_255:
  assumes "encode_loop ws S r i AB = Some y"
  shows "r = 255 \<longrightarrow> (\<exists>e. y = Inl e)"
proof (rule encode_loop.raw_induct
    [where P = "\<lambda>ws S r i AB y. r = 255 \<longrightarrow> (\<exists>e. y = Inl e)", OF _ assms])
  fix f ws and S :: "'a word list" and r i AB y
  assume IH: "\<And>ws S r i AB y. f ws (S :: 'a word list) r i AB = Some y \<Longrightarrow> r = 255 \<longrightarrow> (\<exists>e. y = Inl e)"
    and body: "(if i \<le> r then case encode_round ws S i AB of Inl e \<Rightarrow> Some (Inl e)
                  | Inr AB' \<Rightarrow> f ws S r (i + 1) AB' else Some (Inr AB)) = Some y"
  show "r = 255 \<longrightarrow> (\<exists>e. y = Inl e)"
  proof
    assume r: "r = 255"
    then have "i \<le> r" by (simp only: byte_le_255)
    with body have "(case encode_round ws S i AB of Inl e \<Rightarrow> Some (Inl e)
                  | Inr AB' \<Rightarrow> f ws S r (i + 1) AB') = Some y"
      by simp
    then show "\<exists>e. y = Inl e"
      using IH r by (cases "encode_round ws S i AB") auto
  qed
qed

text \<open>Where no round faults the loop is never left.\<close>

lemma encode_loop_255_diverges:
  fixes S :: "'a::len word list"
  assumes "supported TYPE('a)" and "ws \<noteq> Undefined \<or> LENGTH('a) = 16" and "length S = t 255"
  shows "encode_loop ws S 255 i AB = None"
proof (rule ccontr)
  assume "encode_loop ws S 255 i AB \<noteq> None"
  then obtain y where y: "encode_loop ws S 255 i AB = Some y" by auto
  have "\<forall>ws' (S' :: 'a word list) r i AB. ws' = ws \<and> S' = S \<and> r = 255 \<longrightarrow> True" by simp
  have "r = 255 \<longrightarrow> ws' = ws \<longrightarrow> S' = S \<longrightarrow> False"
    if "encode_loop ws' S' r i' AB' = Some y'" for ws' and S' :: "'a word list" and r i' AB' y'
  proof (rule encode_loop.raw_induct
      [where P = "\<lambda>ws' S' r i AB y. r = 255 \<longrightarrow> ws' = ws \<longrightarrow> S' = S \<longrightarrow> False", OF _ that])
    fix f ws' and S' :: "'a word list" and r i AB y
    assume IH: "\<And>ws' S' r i AB y. f ws' (S' :: 'a word list) r i AB = Some y \<Longrightarrow>
                  r = 255 \<longrightarrow> ws' = ws \<longrightarrow> S' = S \<longrightarrow> False"
      and body: "(if i \<le> r then case encode_round ws' S' i AB of Inl e \<Rightarrow> Some (Inl e)
                  | Inr AB' \<Rightarrow> f ws' S' r (i + 1) AB' else Some (Inr AB)) = Some y"
    show "r = 255 \<longrightarrow> ws' = ws \<longrightarrow> S' = S \<longrightarrow> False"
    proof (intro impI)
      assume r: "r = 255" and ws: "ws' = ws" and S: "S' = S"
      have "i \<le> r" using r by (simp only: byte_le_255)
      moreover have "2 * unat i + 1 < length S"
        using unat_byte_less [of i] assms(3) by (simp add: t_def)
      then have "encode_round ws S i AB = Inr (spec_round S (unat i) AB)"
        by (rule encode_round_eq [OF assms(1,2)])
      ultimately have "f ws S r (i + 1) (spec_round S (unat i) AB) = Some y"
        using body ws S by simp
      then show False using IH r by blast
    qed
  qed
  from this [OF y] show False by simp
qed

lemma encode_255_never_returns:
  assumes "supported TYPE('a::len)" and "ws \<noteq> Undefined \<or> LENGTH('a) = 16"
    and "length block = u TYPE('a) * 2"
  shows "encode ws TYPE('a) 255 K block = None"
proof -
  let ?S = "spec_setupS 255 K :: 'a word list"
  have len: "length ?S = t 255" by (rule length_spec_setupS [OF assms(1)])
  then have "rd ?S 0 = Inr (?S ! 0)" and "rd ?S 1 = Inr (?S ! 1)"
    by (simp_all add: t_def rd_def)
  then have first: "and_then (rd ?S 0) (\<lambda>s0. and_then (rd ?S 1) (\<lambda>s1. Inr (A + s0, B + s1)))
      = Inr (A + ?S ! 0, B + ?S ! 1)" for A B :: "'a word"
    by (simp only: and_then_Inr)
  have "encodeWords ws 255 K (A, B) = None" for A B :: "'a word"
    unfolding encodeWords_def
    by (simp only: prod.case setupS_eq [OF assms(1,2)] sum.case first
        encode_loop_255_diverges [OF assms(1,2) len])
  then show ?thesis
    using assms(1,3) by (simp add: encode_def pack_block_eq)
qed

section \<open>Decoding inverts encoding\<close>

lemma decode_loop_for_each:
  "decode_loop ws S i AB =
     for_each (decode_round ws S) (rev (map of_nat [1 ..< Suc (unat i)])) AB"
proof (induction "unat i" arbitrary: i AB)
  case 0
  then have "i = 0" by (simp add: unat_eq_0)
  then show ?case by simp
next
  case (Suc n)
  then have pos: "0 < i" by (simp add: word_greater_zero_iff unat_gt_0 [symmetric] del: unat_gt_0)
  have prev: "unat (i - 1) = n"
    using Suc.hyps(2) pos by (simp add: unat_minus_one word_greater_zero_iff)
  have "of_nat (unat i) = i" by simp
  then have i: "of_nat (Suc n) = i" by (simp only: Suc.hyps(2) [symmetric])
  have "[1 ..< Suc (Suc n)] = [1 ..< Suc n] @ [Suc n]" by simp
  then have "rev (map of_nat [1 ..< Suc (Suc n)]) = (of_nat (Suc n) :: 8 word) # rev (map of_nat [1 ..< Suc n])"
    by (simp only: map_append rev_append list.map rev.simps append.simps)
  then have lst: "rev (map of_nat [1 ..< Suc (unat i)]) = i # rev (map of_nat [1 ..< Suc n])"
    by (simp only: i Suc.hyps(2) [symmetric])
  have "decode_loop ws S i AB = and_then (decode_round ws S i AB) (decode_loop ws S (i - 1))"
    using pos by (subst decode_loop.simps) simp
  also have "decode_loop ws S (i - 1) = for_each (decode_round ws S) (rev (map of_nat [1 ..< Suc n]))"
    using Suc.hyps(1) [OF prev [symmetric]] prev by (intro ext) simp
  finally show ?case
    by (simp only: lst for_each.simps)
qed

lemma for_each_inverse:
  assumes "\<And>x s s'. x \<in> set xs \<Longrightarrow> f x s = Inr s' \<Longrightarrow> g x s' = Inr s"
  shows "for_each f xs s = Inr s' \<Longrightarrow> for_each g (rev xs) s' = Inr s"
  using assms
proof (induction xs arbitrary: s)
  case Nil
  then show ?case by simp
next
  case (Cons x xs)
  from Cons.prems(1) obtain s1 where s1: "f x s = Inr s1" and rest: "for_each f xs s1 = Inr s'"
    by (auto simp: and_then_eq_Inr)
  have "for_each g (rev xs) s' = Inr s1"
    using Cons.IH [OF rest] Cons.prems(2) by simp
  moreover have "g x s1 = Inr s"
    using Cons.prems(2) [of x s s1] s1 by simp
  ultimately show ?case
    by (simp add: for_each_append)
qed

lemma loops_inverse:
  fixes S :: "'a::len word list"
  assumes "supported TYPE('a)" and "encode_loop ws S r 1 AB = Some (Inr AB')"
  shows "decode_loop ws S r AB' = Inr AB"
proof -
  have r: "r \<noteq> 255"
    using encode_loop_255 [OF assms(2)] by auto
  have "for_each (encode_round ws S) (map of_nat [1 ..< Suc (unat r)]) AB = Inr AB'"
    using encode_loop_for_each [OF r, of 1 ws S AB] assms(2) by simp
  then have "for_each (decode_round ws S) (rev (map of_nat [1 ..< Suc (unat r)])) AB' = Inr AB"
  proof (rule for_each_inverse [rotated])
    fix x s s' assume "encode_round ws S x s = Inr s'"
    then show "decode_round ws S x s' = Inr s"
      using round_inverse [OF assms(1), of ws S x "fst s" "snd s" "fst s'" "snd s'"] by simp
  qed
  then show ?thesis
    by (simp only: decode_loop_for_each)
qed

lemma words_inverse:
  assumes "supported TYPE('a::len)"
    and "encodeWords ws r K (A, B) = Some (Inr (A', B' :: 'a word))"
  shows "decodeWords ws r K (A', B') = Inr (A, B)"
proof -
  from assms(2) obtain S :: "'a word list" where S: "setupS ws r K = Inr S"
    by (auto simp: encodeWords_def split: sum.splits)
  from assms(2) S have in0: "0 < length S" and in1: "1 < length S"
    by (auto simp: encodeWords_def rd_def split: sum.splits if_splits)
  with assms(2) S have "encode_loop ws S r 1 (A + S ! 0, B + S ! 1) = Some (Inr (A', B'))"
    by (simp add: encodeWords_def)
  from loops_inverse [OF assms(1) this] show ?thesis
    using S in0 in1 by (simp add: decodeWords_def)
qed

lemma decode_encode:
  assumes "encode ws TYPE('a::len) r K block = Some (Inr cipher)"
  shows "decode ws TYPE('a) r K cipher = Inr block"
proof -
  let ?u = "u TYPE('a)"
  from assms have sup: "supported TYPE('a)" and len: "length block = ?u * 2"
    by (auto simp: encode_def split: if_splits)
  let ?A = "le_word (take ?u block) :: 'a word" and ?B = "le_word (drop ?u block) :: 'a word"
  from assms sup len obtain A' B' :: "'a word"
    where enc: "encodeWords ws r K (?A, ?B) = Some (Inr (A', B'))"
      and out: "cipher = le_bytes A' @ le_bytes B'"
    by (auto simp: encode_def pack_block_eq unpack_block_eq split: option.splits sum.splits)
  have clen: "length cipher = ?u * 2" by (simp add: out)
  have "take ?u cipher = le_bytes A'" and "drop ?u cipher = le_bytes B'"
    by (simp_all add: out)
  then have "pack_block TYPE('a) cipher = Inr (A', B')"
    by (simp only: pack_block_eq [OF clen] le_word_le_bytes [OF sup])
  moreover have "decodeWords ws r K (A', B') = Inr (?A, ?B)"
    by (rule words_inverse [OF sup enc])
  moreover have "le_bytes ?A @ le_bytes ?B = block"
    using len by (simp add: le_bytes_le_word [OF sup])
  ultimately show ?thesis
    using sup clen by (simp add: decode_def unpack_block_eq)
qed

section \<open>Evaluation, the empty key and bijectivity\<close>


text \<open>Rules that evaluate the cipher of the specification on numerals. A rotation is
  computed from the two shifts and brought back below \<open>2 ^ w\<close> at once.\<close>

lemma rotl_numeral:
  "numeral n < LENGTH('a) \<Longrightarrow> word_rotl (numeral n) (x :: 'a::len word) =
     word_of_nat (unat (push_bit (numeral n) x OR drop_bit (LENGTH('a) - numeral n) x))"
  by (simp add: rotl_by_shifts)

lemma rotl_Suc_0:
  "Suc 0 < LENGTH('a) \<Longrightarrow> word_rotl (Suc 0) (x :: 'a::len word) =
     word_of_nat (unat (push_bit (Suc 0) x OR drop_bit (LENGTH('a) - Suc 0) x))"
  using rotl_by_shifts [of "Suc 0" x] by simp

lemma rotl_0: "word_rotl 0 (x :: 'a::len word) = word_of_nat (unat x)"
  by (simp, rule bit_word_eqI) (simp add: bit_word_rotl_iff)

lemma funpow_numeral_unroll: "(f ^^ numeral k) x = (f ^^ pred_numeral k) (f x)"
  by (simp add: numeral_eq_Suc funpow_swap1)

lemma fold_upt_unroll:
  "fold f [i ..< j] s = (if i < j then fold f [Suc i ..< j] (f i s) else s)"
  by (simp add: upt_rec)

lemma map_upt_unroll:
  "map f [i ..< j] = (if i < j then f i # map f [Suc i ..< j] else [])"
  by (simp add: upt_rec)

lemmas eval_mix = spec_mix_def Let_def rotateLeft_def rotl_numeral rotl_Suc_0 rotl_0
  funpow_numeral_unroll

lemmas eval_setupS = spec_setupS_def spec_S_def spec_L_def le_word_def magic_P_def magic_Q_def
  t_def c_def u_def eval_mix map_upt_unroll

lemmas eval_encode = spec_encode_def spec_encodeWords_def spec_round_def le_bytes_def
  fold_upt_unroll eval_setupS

lemma horner_zero: "horner_sum ucast 256 (replicate n (0 :: byte)) = (0 :: 'a::len word)"
  by (induction n) simp_all

lemma spec_L_empty:
  assumes "supported TYPE('a::len)"
  shows "(spec_L [] :: 'a word list) = [0]"
    and "(spec_L (replicate (u TYPE('a)) 0) :: 'a word list) = [0]"
    and "c TYPE('a) 0 = 1" and "c TYPE('a) (u TYPE('a)) = 1"
proof -
  have u: "0 < u TYPE('a)" using assms by (auto simp: supported_def u_def)
  show c0: "c TYPE('a) 0 = 1" using u by (simp add: c_def)
  have "(u TYPE('a) + (u TYPE('a) - 1)) div u TYPE('a) = (u TYPE('a) - 1) div u TYPE('a) + 1"
    using u by (intro div_add_self1) simp
  moreover have "max (u TYPE('a)) 1 + u TYPE('a) - 1 = u TYPE('a) + (u TYPE('a) - 1)"
    using u by arith
  ultimately have "(max (u TYPE('a)) 1 + u TYPE('a) - 1) div u TYPE('a) = 1"
    using u by simp
  then show cu: "c TYPE('a) (u TYPE('a)) = 1" by (simp add: c_def)
  show "(spec_L [] :: 'a word list) = [0]"
    using c0 by (simp add: spec_L_def)
  show "(spec_L (replicate (u TYPE('a)) 0) :: 'a word list) = [0]"
    using cu by (simp add: spec_L_def le_word_def horner_zero)
qed

lemma setupS_empty_key:
  "(setupS ws r [] :: 'a::len word list result) = setupS ws r (replicate (u TYPE('a)) 0)"
proof (cases "supported TYPE('a)")
  case True
  have u: "0 < u TYPE('a)" using True by (auto simp: supported_def u_def)
  have "for_each (load_key []) (rev [0 ..< length ([] :: byte list)])
          (replicate (c TYPE('a) (length ([] :: byte list))) (0 :: 'a word)) = Inr [0]"
    using load_key_eq [OF u, of "[]"] spec_L_empty(1) [OF True] by simp
  moreover have "for_each (load_key (replicate (u TYPE('a)) 0))
          (rev [0 ..< length (replicate (u TYPE('a)) (0 :: byte))])
          (replicate (c TYPE('a) (length (replicate (u TYPE('a)) (0 :: byte)))) (0 :: 'a word)) = Inr [0]"
    using load_key_eq [OF u, of "replicate (u TYPE('a)) 0"] spec_L_empty(2) [OF True] by simp
  moreover have "c TYPE('a) (length ([] :: byte list)) = c TYPE('a) (length (replicate (u TYPE('a)) (0 :: byte)))"
    using spec_L_empty(3,4) [OF True] by simp
  ultimately show ?thesis
    by (simp only: setupS_def Let_def)
next
  case False
  then have W: "(WordT_P :: 'a word result) = Inl UnsupportedWidth"
    by (auto simp: supported_def WordT_P_def)
  show ?thesis by (simp only: setupS_def W and_then_Inl)
qed

lemma encode_empty_key:
  "encode ws TYPE('a::len) r [] block = encode ws TYPE('a) r (replicate (u TYPE('a)) 0) block"
proof -
  have "encodeWords ws r [] AB = encodeWords ws r (replicate (u TYPE('a)) 0) AB"
    for AB :: "'a word \<times> 'a word"
    by (simp only: encodeWords_def setupS_empty_key [of ws r, where ?'a = 'a])
  then show ?thesis
    by (simp only: encode_def)
qed

lemma length_spec_encode:
  "length (spec_encode TYPE('a::len) r K block) = u TYPE('a) * 2"
  by (simp add: spec_encode_def split: prod.splits)

lemma finite_blocks: "finite {b :: byte list. length b = n}"
  using finite_lists_length_eq [of "UNIV :: byte set" n] by simp

lemma spec_encode_bij:
  assumes "supported TYPE('a::len)" and "ws \<noteq> Undefined \<or> LENGTH('a) = 16" and "r \<noteq> 255"
  shows "bij_betw (spec_encode TYPE('a) r K)
           {b. length b = u TYPE('a) * 2} {b. length b = u TYPE('a) * 2}"
proof -
  let ?B = "{b :: byte list. length b = u TYPE('a) * 2}"
  let ?f = "spec_encode TYPE('a) r K"
  have inj: "inj_on ?f ?B"
  proof (rule inj_onI)
    fix x y assume x: "x \<in> ?B" and y: "y \<in> ?B" and eq: "?f x = ?f y"
    have ex: "encode ws TYPE('a) r K x = Some (Inr (?f x))"
      using x by (intro encode_eq [OF assms]) simp
    have ey: "encode ws TYPE('a) r K y = Some (Inr (?f x))"
      using y eq encode_eq [OF assms, of y K] by simp
    have "decode ws TYPE('a) r K (?f x) = Inr x" by (rule decode_encode [OF ex])
    moreover have "decode ws TYPE('a) r K (?f x) = Inr y" by (rule decode_encode [OF ey])
    ultimately show "x = y" by simp
  qed
  have sub: "?f ` ?B \<subseteq> ?B" by (auto simp: length_spec_encode)
  have "?f ` ?B = ?B" by (rule endo_inj_surj [OF finite_blocks sub inj])
  with inj show ?thesis by (simp add: bij_betw_def)
qed



section \<open>Totality of decoding and a faulting key schedule\<close>

lemma decode_total:
  assumes "supported TYPE('a::len)" and "ws \<noteq> Undefined \<or> LENGTH('a) = 16" and "r \<noteq> 255"
    and "length cipher = 2 * (LENGTH('a) div 8)"
  shows "\<exists>plain. length plain = 2 * (LENGTH('a) div 8) \<and>
           encode ws TYPE('a) r K plain = Some (Inr cipher) \<and>
           decode ws TYPE('a) r K cipher = Inr plain"
proof -
  let ?B = "{b :: byte list. length b = u TYPE('a) * 2}"
  have un: "u TYPE('a) * 2 = 2 * (LENGTH('a) div 8)" by (simp add: u_def)
  have "spec_encode TYPE('a) r K ` ?B = ?B"
    using spec_encode_bij [OF assms(1-3), of K] by (rule bij_betw_imp_surj_on)
  moreover have "cipher \<in> ?B" using assms(4) un by simp
  ultimately have "cipher \<in> spec_encode TYPE('a) r K ` ?B" by (simp only:)
  then obtain plain where p: "plain \<in> ?B" and e: "cipher = spec_encode TYPE('a) r K plain"
    by (rule imageE)
  from p have len: "length plain = u TYPE('a) * 2" by simp
  have enc: "encode ws TYPE('a) r K plain = Some (Inr cipher)"
    by (simp only: e encode_eq [OF assms(1-3) len, of K])
  have dec: "decode ws TYPE('a) r K cipher = Inr plain"
    by (rule decode_encode [OF enc])
  have len': "length plain = 2 * (LENGTH('a) div 8)" using len un by simp
  from len' enc dec show ?thesis by (intro exI conjI)
qed

text \<open>The key schedule of \<open>RC5<32, 1, 0>\<close> under the reading of the language: the third
  turn of the mixing loop rotates by \<open>A + B = 0x31663500\<close>, a multiple of 32.\<close>

lemma for_each_upt_unroll:
  "for_each f [i ..< j] s = (if i < j then and_then (f i s) (for_each f [Suc i ..< j]) else Inr s)"
  by (simp add: upt_rec)

lemma and_then_Inl_eval: "and_then (Inl e) f = Inl e"
  by (simp add: and_then_def)

lemma and_then_Inr_eval: "and_then (Inr v) f = f v"
  by (simp add: and_then_def)

lemmas eval_step = mix_step_def left_shift_def shl_def shr_def promoted_bits_def rd_def wr_def
  and_then_Inl_eval and_then_Inr_eval Let_def

lemma setupS_32_1_empty_undefined:
  "(setupS Undefined 1 [] :: 32 word list result) = Inl UndefinedShift"
  by (simp add: setupS_def WordT_P_def WordT_Q_def c_def u_def t_def
      for_each_upt_unroll next_S_def eval_step)





section \<open>The claims\<close>

text \<open>
  C9. The magic constants that seed the key schedule are, for \<open>w = 16\<close>, \<open>P = 0xB7E1\<close> and
  \<open>Q = 0x9E37\<close>; for \<open>w = 32\<close>, \<open>P = 0xB7E15163\<close> and \<open>Q = 0x9E3779B9\<close>; for
  \<open>w = 64\<close>, \<open>P = 0xB7E151628AED2A6B\<close> and \<open>Q = 0x9E3779B97F4A7C15\<close>.
\<close>

theorem magic_constants:
  "(WordT_P :: 16 word result) = Inr 0xB7E1 \<and> (WordT_Q :: 16 word result) = Inr 0x9E37 \<and>
   (WordT_P :: 32 word result) = Inr 0xB7E15163 \<and> (WordT_Q :: 32 word result) = Inr 0x9E3779B9 \<and>
   (WordT_P :: 64 word result) = Inr 0xB7E151628AED2A6B \<and>
   (WordT_Q :: 64 word result) = Inr 0x9E3779B97F4A7C15"
  by (simp add: WordT_P_def WordT_Q_def)

text \<open>
  C4. The claim is that a rotation whose count is a multiple of the width returns \<open>x\<close>
  without computing a shift by \<open>w\<close>. The code computes \<open>x >> (w - 0)\<close> (and
  \<open>x << (w - 0)\<close> in \<open>right_shift\<close>) there: on 32-bit and 64-bit words, where the operand
  is not promoted, the rotation by a multiple of the width evaluates the undefined shift.
\<close>

theorem rotation_by_width_multiple_shifts_by_width:
  "left_shift Undefined (1 :: 32 word) 0 = Inl UndefinedShift \<and>
   right_shift Undefined (1 :: 32 word) 0 = Inl UndefinedShift \<and>
   left_shift Undefined (1 :: 32 word) 32 = Inl UndefinedShift \<and>
   left_shift Undefined (1 :: 64 word) 64 = Inl UndefinedShift \<and>
   right_shift Undefined (1 :: 64 word) 0 = Inl UndefinedShift"
  by (simp add: left_shift_def right_shift_def shl_def shr_def promoted_bits_def)

text \<open>
  C8. With \<open>u = ceil(w / 8)\<close>, which is \<open>w div 8\<close> and covers the word exactly,
  \<open>packWord\<close> reads the \<open>u\<close> bytes at \<open>offset, ..., offset + u - 1\<close> and returns the word
  whose \<open>i\<close>-th least-significant byte is \<open>buffer[offset + i]\<close> (so it depends on no other
  byte of the buffer); \<open>unpackWord\<close> writes the \<open>u\<close> bytes of the word, least-significant
  first, into \<open>buffer[offset .. offset + u)\<close> and leaves the rest; \<open>encode\<close> packs \<open>A\<close> from
  the first \<open>u\<close> bytes of the block and \<open>B\<close> from the next \<open>u\<close>, and writes \<open>A\<close> at offset 0
  and \<open>B\<close> at offset \<open>u\<close> of the output.
\<close>

theorem packWord_unpackWord_little_endian:
  fixes word :: "'a::len word"
  assumes "supported TYPE('a)"
  shows
    "u TYPE('a) = LENGTH('a) div 8 \<and> 8 * (LENGTH('a) div 8) = LENGTH('a) \<and>
     (offset + LENGTH('a) div 8 \<le> length buffer \<longrightarrow>
        (\<exists>v :: 'a word.
           packWord buffer offset = Inr v \<and>
           v = horner_sum ucast 256 (take (LENGTH('a) div 8) (drop offset buffer)) \<and>
           (\<forall>i < LENGTH('a) div 8. ucast (drop_bit (8 * i) v) = buffer ! (offset + i)))) \<and>
     (offset + LENGTH('a) div 8 \<le> length buffer \<longrightarrow>
        unpackWord buffer offset word =
          Inr (take offset buffer
                 @ map (\<lambda>i. ucast (drop_bit (8 * i) word)) [0 ..< LENGTH('a) div 8]
                 @ drop (offset + LENGTH('a) div 8) buffer)) \<and>
     (length plaintext = 2 * (LENGTH('a) div 8) \<longrightarrow>
        encode ws TYPE('a) r K plaintext =
          (case encodeWords ws r K
                  (horner_sum ucast 256 (take (LENGTH('a) div 8) plaintext) :: 'a word,
                   horner_sum ucast 256 (drop (LENGTH('a) div 8) plaintext)) of
             None \<Rightarrow> None
           | Some (Inl e) \<Rightarrow> Some (Inl e)
           | Some (Inr (A, B)) \<Rightarrow>
               Some (Inr (map (\<lambda>i. ucast (drop_bit (8 * i) A)) [0 ..< LENGTH('a) div 8]
                          @ map (\<lambda>i. ucast (drop_bit (8 * i) B)) [0 ..< LENGTH('a) div 8]))))"
proof -
  let ?n = "LENGTH('a) div 8"
  have un: "u TYPE('a) = ?n" by (simp add: u_def)
  have bits: "8 * ?n = LENGTH('a)" using u_bits [OF assms] by (simp add: un)
  have pack: "\<exists>v :: 'a word.
           packWord buffer offset = Inr v \<and>
           v = horner_sum ucast 256 (take ?n (drop offset buffer)) \<and>
           (\<forall>i < ?n. ucast (drop_bit (8 * i) v) = buffer ! (offset + i))"
    if b: "offset + ?n \<le> length buffer"
  proof -
    have b': "offset + u TYPE('a) \<le> length buffer" using b by (simp add: un)
    have len: "length (take (u TYPE('a)) (drop offset buffer)) = u TYPE('a)" using b' by simp
    have "ucast (drop_bit (8 * i) (le_word (take (u TYPE('a)) (drop offset buffer)) :: 'a word))
          = buffer ! (offset + i)" if "i < ?n" for i
      using byte_of_le_word [OF assms len, of i] that b' by (simp add: un)
    then show ?thesis
      using packWord_eq [OF b'] by (simp add: un le_word_def)
  qed
  have unpack: "unpackWord buffer offset word =
          Inr (take offset buffer @ map (\<lambda>i. ucast (drop_bit (8 * i) word)) [0 ..< ?n]
                 @ drop (offset + ?n) buffer)"
    if b: "offset + ?n \<le> length buffer"
  proof -
    have b': "offset + u TYPE('a) \<le> length buffer" using b by (simp add: un)
    from unpackWord_eq [OF assms b', of word] show ?thesis
      by (simp add: le_bytes_def un)
  qed
  have enc: "encode ws TYPE('a) r K plaintext =
          (case encodeWords ws r K
                  (horner_sum ucast 256 (take ?n plaintext) :: 'a word,
                   horner_sum ucast 256 (drop ?n plaintext)) of
             None \<Rightarrow> None
           | Some (Inl e) \<Rightarrow> Some (Inl e)
           | Some (Inr (A, B)) \<Rightarrow>
               Some (Inr (map (\<lambda>i. ucast (drop_bit (8 * i) A)) [0 ..< ?n]
                          @ map (\<lambda>i. ucast (drop_bit (8 * i) B)) [0 ..< ?n])))"
    if len: "length plaintext = 2 * ?n"
  proof -
    have len': "length plaintext = u TYPE('a) * 2" using len by (simp add: un)
    show ?thesis
      using assms
      by (simp add: encode_def len' pack_block_eq [OF len'] unpack_block_eq le_bytes_def
          le_word_def un split: option.splits sum.splits prod.splits)
  qed
  show ?thesis
    using un bits pack unpack enc by blast
qed

theorem packWord_unpackWord_little_endian_witness:
  "supported TYPE(16) \<and> supported TYPE(32) \<and> supported TYPE(64) \<and>
   u TYPE(16) = 2 \<and> u TYPE(32) = 4 \<and> u TYPE(64) = 8 \<and>
   (packWord [0x11, 0x22, 0x33, 0x44] 1 :: 16 word result) = Inr 0x3322 \<and>
   (packWord [0x11, 0x22, 0x33, 0x44, 0x55, 0x66, 0x77, 0x88] 2 :: 32 word result) = Inr 0x66554433 \<and>
   (packWord [0x11, 0x22, 0x33, 0x44, 0x55, 0x66, 0x77, 0x88] 0 :: 64 word result)
      = Inr 0x8877665544332211 \<and>
   unpackWord [1, 2, 3, 4] 1 (0xBEEF :: 16 word) = Inr [1, 0xEF, 0xBE, 4] \<and>
   unpackWord [1, 2, 3, 4, 5, 6] 1 (0xDEADBEEF :: 32 word) = Inr [1, 0xEF, 0xBE, 0xAD, 0xDE, 6] \<and>
   unpackWord [0, 0, 0, 0, 0, 0, 0, 0, 9] 0 (0x0123456789ABCDEF :: 64 word)
      = Inr [0xEF, 0xCD, 0xAB, 0x89, 0x67, 0x45, 0x23, 0x01, 9] \<and>
   encode Zero TYPE(32) 0 [] [0x11, 0x22, 0x33, 0x44, 0x55, 0x66, 0x77, 0x88] =
     (case encodeWords Zero 0 [] (0x44332211 :: 32 word, 0x88776655 :: 32 word) of
        None \<Rightarrow> None
      | Some (Inl e) \<Rightarrow> Some (Inl e)
      | Some (Inr (A, B)) \<Rightarrow>
          Some (Inr [ucast A, ucast (drop_bit 8 A), ucast (drop_bit 16 A), ucast (drop_bit 24 A),
                     ucast B, ucast (drop_bit 8 B), ucast (drop_bit 16 B), ucast (drop_bit 24 B)]))"
proof -
  have s16: "supported TYPE(16)" and s32: "supported TYPE(32)" and s64: "supported TYPE(64)"
    by (simp_all add: supported_def)
  have n2: "[0 ..< 2] = [0, 1]" and n4: "[0 ..< 4] = [0, 1, 2, 3]"
    and n8: "[0 ..< 8] = [0, 1, 2, 3, 4, 5, 6, 7]"
    by (simp_all add: upt_rec)
  let ?b8 = "[0x11, 0x22, 0x33, 0x44, 0x55, 0x66, 0x77, 0x88] :: byte list"
  have a: "u TYPE(16) = 2 \<and>
      (packWord [0x11, 0x22, 0x33, 0x44] 1 :: 16 word result) = Inr 0x3322 \<and>
      unpackWord [1, 2, 3, 4] 1 (0xBEEF :: 16 word) = Inr [1, 0xEF, 0xBE, 4]"
    using packWord_unpackWord_little_endian [OF s16, of 1 "[0x11, 0x22, 0x33, 0x44]" "0xBEEF" "[]" Zero 0 "[]"]
      packWord_unpackWord_little_endian [OF s16, of 1 "[1, 2, 3, 4]" "0xBEEF" "[]" Zero 0 "[]"]
    by (simp add: n2)
  have b: "u TYPE(32) = 4 \<and>
      (packWord ?b8 2 :: 32 word result) = Inr 0x66554433 \<and>
      unpackWord [1, 2, 3, 4, 5, 6] 1 (0xDEADBEEF :: 32 word) = Inr [1, 0xEF, 0xBE, 0xAD, 0xDE, 6] \<and>
      encode Zero TYPE(32) 0 [] ?b8 =
        (case encodeWords Zero 0 [] (0x44332211 :: 32 word, 0x88776655 :: 32 word) of
           None \<Rightarrow> None
         | Some (Inl e) \<Rightarrow> Some (Inl e)
         | Some (Inr (A, B)) \<Rightarrow>
             Some (Inr [ucast A, ucast (drop_bit 8 A), ucast (drop_bit 16 A), ucast (drop_bit 24 A),
                        ucast B, ucast (drop_bit 8 B), ucast (drop_bit 16 B), ucast (drop_bit 24 B)]))"
    using packWord_unpackWord_little_endian [OF s32, of 2 ?b8 "0xDEADBEEF" ?b8 Zero 0 "[]"]
      packWord_unpackWord_little_endian [OF s32, of 1 "[1, 2, 3, 4, 5, 6]" "0xDEADBEEF" ?b8 Zero 0 "[]"]
    by (simp add: n4 split: option.splits sum.splits prod.splits)
  have c: "u TYPE(64) = 8 \<and>
      (packWord ?b8 0 :: 64 word result) = Inr 0x8877665544332211 \<and>
      unpackWord [0, 0, 0, 0, 0, 0, 0, 0, 9] 0 (0x0123456789ABCDEF :: 64 word)
        = Inr [0xEF, 0xCD, 0xAB, 0x89, 0x67, 0x45, 0x23, 0x01, 9]"
    using packWord_unpackWord_little_endian [OF s64, of 0 ?b8 "0x0123456789ABCDEF" "[]" Zero 0 "[]"]
      packWord_unpackWord_little_endian [OF s64, of 0 "[0, 0, 0, 0, 0, 0, 0, 0, 9]" "0x0123456789ABCDEF" "[]" Zero 0 "[]"]
    by (simp add: n8)
  from a b c s16 s32 s64 show ?thesis by blast
qed





text \<open>
  C10. Encoding under the empty key gives what encoding under the key of \<open>u\<close> zero bytes
  gives, for every width, round count and block: in both cases \<open>c = 1\<close> and the key is
  loaded into the single word \<open>L[0] = 0\<close>, so \<open>setupS\<close> returns the same table. Where
  \<open>encode\<close> returns a block, both keys give the same ciphertext block.
\<close>

theorem empty_key_equals_zero_key:
  "encode ws TYPE('a::len) r [] block = encode ws TYPE('a) r (replicate (LENGTH('a) div 8) 0) block \<and>
   (setupS ws r [] :: 'a word list result) = setupS ws r (replicate (LENGTH('a) div 8) 0) \<and>
   (supported TYPE('a) \<longrightarrow>
      c TYPE('a) 0 = 1 \<and> c TYPE('a) (LENGTH('a) div 8) = 1 \<and>
      for_each (load_key []) (rev [0 ..< 0]) (replicate (c TYPE('a) 0) (0 :: 'a word)) = Inr [0] \<and>
      for_each (load_key (replicate (LENGTH('a) div 8) 0)) (rev [0 ..< LENGTH('a) div 8])
         (replicate (c TYPE('a) (LENGTH('a) div 8)) (0 :: 'a word)) = Inr [0]) \<and>
   (supported TYPE('a) \<and> (ws \<noteq> Undefined \<or> LENGTH('a) = 16) \<and> r \<noteq> 255 \<and>
      length block = 2 * (LENGTH('a) div 8) \<longrightarrow>
      (\<exists>cipher. length cipher = 2 * (LENGTH('a) div 8) \<and>
         encode ws TYPE('a) r [] block = Some (Inr cipher) \<and>
         encode ws TYPE('a) r (replicate (LENGTH('a) div 8) 0) block = Some (Inr cipher)))"
proof (intro conjI impI)
  show e: "encode ws TYPE('a) r [] block = encode ws TYPE('a) r (replicate (LENGTH('a) div 8) 0) block"
    using encode_empty_key [of ws r block, where ?'a = 'a] by (simp only: u_def)
  show "(setupS ws r [] :: 'a word list result) = setupS ws r (replicate (LENGTH('a) div 8) 0)"
    using setupS_empty_key [of ws r, where ?'a = 'a] by (simp only: u_def)
  {
    assume sup: "supported TYPE('a)"
    then have u: "0 < u TYPE('a)" by (auto simp: supported_def u_def)
    show "c TYPE('a) 0 = 1" by (rule spec_L_empty(3) [OF sup])
    show "c TYPE('a) (LENGTH('a) div 8) = 1"
      using spec_L_empty(4) [OF sup] by (simp only: u_def)
    show "for_each (load_key []) (rev [0 ..< 0]) (replicate (c TYPE('a) 0) (0 :: 'a word)) = Inr [0]"
      using load_key_eq [OF u, of "[]"] spec_L_empty(1) [OF sup] by simp
    show "for_each (load_key (replicate (LENGTH('a) div 8) 0)) (rev [0 ..< LENGTH('a) div 8])
         (replicate (c TYPE('a) (LENGTH('a) div 8)) (0 :: 'a word)) = Inr [0]"
      using load_key_eq [OF u, of "replicate (u TYPE('a)) 0"] spec_L_empty(2) [OF sup]
      by (simp add: u_def)
  }
  assume h: "supported TYPE('a) \<and> (ws \<noteq> Undefined \<or> LENGTH('a) = 16) \<and> r \<noteq> 255 \<and>
      length block = 2 * (LENGTH('a) div 8)"
  then have sup: "supported TYPE('a)" and ok: "ws \<noteq> Undefined \<or> LENGTH('a) = 16"
    and r: "r \<noteq> 255" and len: "length block = u TYPE('a) * 2"
    by (simp_all add: u_def)
  have enc: "encode ws TYPE('a) r [] block = Some (Inr (spec_encode TYPE('a) r [] block))"
    by (rule encode_eq [OF sup ok r len])
  have "length (spec_encode TYPE('a) r [] block) = 2 * (LENGTH('a) div 8)"
    using length_spec_encode [of r "[]" block, where ?'a = 'a] by (simp add: u_def)
  with enc e show "\<exists>cipher. length cipher = 2 * (LENGTH('a) div 8) \<and>
         encode ws TYPE('a) r [] block = Some (Inr cipher) \<and>
         encode ws TYPE('a) r (replicate (LENGTH('a) div 8) 0) block = Some (Inr cipher)"
    by (intro exI [of _ "spec_encode TYPE('a) r [] block"]) (simp only: simp_thms)
qed

theorem empty_key_equals_zero_key_witness:
  "encode Zero TYPE(32) 1 [] [1, 2, 3, 4, 5, 6, 7, 8]
     = Some (Inr [0x57, 0x4C, 0x93, 0xC3, 0x14, 0xD0, 0x06, 0x7F]) \<and>
   encode Zero TYPE(32) 1 [0, 0, 0, 0] [1, 2, 3, 4, 5, 6, 7, 8]
     = Some (Inr [0x57, 0x4C, 0x93, 0xC3, 0x14, 0xD0, 0x06, 0x7F]) \<and>
   encode Undefined TYPE(16) 1 [] [0, 0, 0, 0] = Some (Inr [0x0F, 0x01, 0x51, 0x80]) \<and>
   encode Undefined TYPE(16) 1 [0, 0] [0, 0, 0, 0] = Some (Inr [0x0F, 0x01, 0x51, 0x80]) \<and>
   supported TYPE(32) \<and> c TYPE(32) 0 = 1 \<and> c TYPE(32) 4 = 1 \<and>
   supported TYPE(16) \<and> c TYPE(16) 0 = 1 \<and> c TYPE(16) 2 = 1"
proof -
  have s32: "supported TYPE(32)" and s16: "supported TYPE(16)" by (simp_all add: supported_def)
  have ok32: "Zero \<noteq> Undefined \<or> LENGTH(32) = 16" and ok16: "Undefined \<noteq> Undefined \<or> LENGTH(16) = 16"
    by simp_all
  have r: "(1 :: 8 word) \<noteq> 255" by simp
  have e32: "encode Zero TYPE(32) 1 [] [1, 2, 3, 4, 5, 6, 7, 8]
     = Some (Inr [0x57, 0x4C, 0x93, 0xC3, 0x14, 0xD0, 0x06, 0x7F])"
    by (subst encode_eq [OF s32 ok32 r]) (simp_all add: eval_encode)
  have e16: "encode Undefined TYPE(16) 1 [] [0, 0, 0, 0] = Some (Inr [0x0F, 0x01, 0x51, 0x80])"
    by (subst encode_eq [OF s16 ok16 r]) (simp_all add: eval_encode)
  note i32 = empty_key_equals_zero_key [where ?'a = 32, of Zero 1 "[1, 2, 3, 4, 5, 6, 7, 8]"]
  note i16 = empty_key_equals_zero_key [where ?'a = 16, of Undefined 1 "[0, 0, 0, 0]"]
  have "LENGTH(32) div 8 = Suc (Suc (Suc (Suc 0)))" and "LENGTH(16) div 8 = Suc (Suc 0)"
    by simp_all
  then have r32: "replicate (LENGTH(32) div 8) (0 :: byte) = [0, 0, 0, 0]"
    and r16: "replicate (LENGTH(16) div 8) (0 :: byte) = [0, 0]"
    by (simp_all only: replicate.simps)
  have z32: "encode Zero TYPE(32) 1 [0, 0, 0, 0] [1, 2, 3, 4, 5, 6, 7, 8]
     = Some (Inr [0x57, 0x4C, 0x93, 0xC3, 0x14, 0xD0, 0x06, 0x7F])"
    using i32 [THEN conjunct1] e32 by (simp only: r32)
  have z16: "encode Undefined TYPE(16) 1 [0, 0] [0, 0, 0, 0] = Some (Inr [0x0F, 0x01, 0x51, 0x80])"
    using i16 [THEN conjunct1] e16 by (simp only: r16)
  have c32: "c TYPE(32) 0 = 1 \<and> c TYPE(32) 4 = 1"
    using i32 [THEN conjunct2, THEN conjunct2, THEN conjunct1] s32 by simp
  have c16: "c TYPE(16) 0 = 1 \<and> c TYPE(16) 2 = 1"
    using i16 [THEN conjunct2, THEN conjunct2, THEN conjunct1] s16 by simp
  from e32 z32 e16 z16 s32 s16 c32 c16 show ?thesis by (simp only: simp_thms)
qed

text \<open>
  C1. The claim is that \<open>decode(key, encode(key, block)) = block\<close> for every supported
  width, every round count, every key and every block of \<open>2u\<close> bytes. Whenever \<open>encode\<close>
  returns a block, \<open>decode\<close> gives the plaintext back, and \<open>encode\<close> does return for every
  round count but one: with \<open>r = 255\<close> the test \<open>i <= r\<close> of
  \<open>for (uint8_t i = 1; i <= r; ++i)\<close> holds for every byte \<open>i\<close>, the counter wraps from 255
  to 0 and \<open>encode\<close> never returns.
\<close>

theorem round_trip_unless_255_rounds:
  "(encode ws TYPE('a::len) r K block = Some (Inr cipher) \<longrightarrow>
      decode ws TYPE('a) r K cipher = Inr block) \<and>
   (supported TYPE('a) \<and> (ws \<noteq> Undefined \<or> LENGTH('a) = 16) \<and>
    length block = 2 * (LENGTH('a) div 8) \<longrightarrow>
      (if r = 255 then encode ws TYPE('a) r K block = None
       else \<exists>cipher. length cipher = 2 * (LENGTH('a) div 8) \<and>
              encode ws TYPE('a) r K block = Some (Inr cipher) \<and>
              decode ws TYPE('a) r K cipher = Inr block))"
proof (intro conjI impI)
  assume "encode ws TYPE('a) r K block = Some (Inr cipher)"
  then show "decode ws TYPE('a) r K cipher = Inr block" by (rule decode_encode)
next
  assume "supported TYPE('a) \<and> (ws \<noteq> Undefined \<or> LENGTH('a) = 16) \<and>
    length block = 2 * (LENGTH('a) div 8)"
  then have sup: "supported TYPE('a)" and ok: "ws \<noteq> Undefined \<or> LENGTH('a) = 16"
    and len: "length block = u TYPE('a) * 2"
    by (simp_all add: u_def)
  show "if r = 255 then encode ws TYPE('a) r K block = None
       else \<exists>cipher. length cipher = 2 * (LENGTH('a) div 8) \<and>
              encode ws TYPE('a) r K block = Some (Inr cipher) \<and>
              decode ws TYPE('a) r K cipher = Inr block"
  proof (cases "r = 255")
    case True
    have "encode ws TYPE('a) 255 K block = None"
      by (rule encode_255_never_returns [OF sup ok len])
    with True show ?thesis by simp
  next
    case False
    have enc: "encode ws TYPE('a) r K block = Some (Inr (spec_encode TYPE('a) r K block))"
      by (rule encode_eq [OF sup ok False len])
    have l: "length (spec_encode TYPE('a) r K block) = 2 * (LENGTH('a) div 8)"
      using length_spec_encode [of r K block, where ?'a = 'a] by (simp add: u_def)
    have "\<exists>cipher. length cipher = 2 * (LENGTH('a) div 8) \<and>
              encode ws TYPE('a) r K block = Some (Inr cipher) \<and>
              decode ws TYPE('a) r K cipher = Inr block"
      using l enc decode_encode [OF enc] by (intro exI conjI)
    with False show ?thesis by (simp only: if_False)
  qed
qed

theorem round_trip_unless_255_rounds_witness:
  "supported TYPE(32) \<and> length [0, 0, 0, 0, 0, 0, 0, 0 :: byte] = 2 * (LENGTH(32) div 8) \<and>
   encode Zero TYPE(32) 255 [1, 2, 3] [0, 0, 0, 0, 0, 0, 0, 0] = None \<and>
   encode Modulo TYPE(32) 255 [] [0, 0, 0, 0, 0, 0, 0, 0] = None \<and>
   encode Zero TYPE(32) 1 [7, 8, 9] [0, 0, 0, 0, 0, 0, 0, 0]
     = Some (Inr [0xB7, 0x7C, 0x1B, 0x48, 0xE4, 0x27, 0x43, 0x34]) \<and>
   decode Zero TYPE(32) 1 [7, 8, 9] [0xB7, 0x7C, 0x1B, 0x48, 0xE4, 0x27, 0x43, 0x34]
     = Inr [0, 0, 0, 0, 0, 0, 0, 0]"
proof -
  have s32: "supported TYPE(32)" by (simp add: supported_def)
  have ok: "Zero \<noteq> Undefined \<or> LENGTH(32) = 16" by simp
  have r: "(1 :: 8 word) \<noteq> 255" by simp
  have len: "length [0, 0, 0, 0, 0, 0, 0, 0 :: byte] = 2 * (LENGTH(32) div 8)" by simp
  have n1: "encode Zero TYPE(32) 255 [1, 2, 3] [0, 0, 0, 0, 0, 0, 0, 0] = None"
    using round_trip_unless_255_rounds [where ?'a = 32, of Zero 255 "[1, 2, 3]"
        "[0, 0, 0, 0, 0, 0, 0, 0]", THEN conjunct2] s32 len
    by simp
  have n2: "encode Modulo TYPE(32) 255 [] [0, 0, 0, 0, 0, 0, 0, 0] = None"
    using round_trip_unless_255_rounds [where ?'a = 32, of Modulo 255 "[]"
        "[0, 0, 0, 0, 0, 0, 0, 0]", THEN conjunct2] s32 len
    by simp
  have e: "encode Zero TYPE(32) 1 [7, 8, 9] [0, 0, 0, 0, 0, 0, 0, 0]
     = Some (Inr [0xB7, 0x7C, 0x1B, 0x48, 0xE4, 0x27, 0x43, 0x34])"
    by (subst encode_eq [OF s32 ok r]) (simp_all add: eval_encode)
  have d: "decode Zero TYPE(32) 1 [7, 8, 9] [0xB7, 0x7C, 0x1B, 0x48, 0xE4, 0x27, 0x43, 0x34]
     = Inr [0, 0, 0, 0, 0, 0, 0, 0]"
    using round_trip_unless_255_rounds [where ?'a = 32, of Zero 1 "[7, 8, 9]"
        "[0, 0, 0, 0, 0, 0, 0, 0]" "[0xB7, 0x7C, 0x1B, 0x48, 0xE4, 0x27, 0x43, 0x34]",
        THEN conjunct1] e
    by (simp only: simp_thms)
  from s32 len n1 n2 e d show ?thesis by (simp only: simp_thms)
qed

text \<open>
  C6. The claim is that with the empty key \<open>encode\<close> and \<open>decode\<close> do not fault and are
  total on the blocks of \<open>2u\<close> bytes. The key schedule does use \<open>c = 1\<close>, no index leaves a
  table, and where the rotations evaluate no undefined shift both operations return a block for
  every round count below 255. With \<open>r = 255\<close> the round loop of \<open>encode\<close> never ends, and
  on 32-bit words the key schedule of the empty key rotates by a multiple of the width in
  its third turn, which evaluates the undefined shift.
\<close>

theorem empty_key_encode_decode:
  "encode Undefined TYPE(32) 1 [] [1, 2, 3, 4, 5, 6, 7, 8] = Some (Inl UndefinedShift) \<and>
   decode Undefined TYPE(32) 1 [] [1, 2, 3, 4, 5, 6, 7, 8] = Inl UndefinedShift \<and>
   (supported TYPE('a::len) \<and> (ws \<noteq> Undefined \<or> LENGTH('a) = 16) \<and>
    length block = 2 * (LENGTH('a) div 8) \<longrightarrow>
      c TYPE('a) (length ([] :: byte list)) = 1 \<and>
      (if r = 255 then encode ws TYPE('a) r [] block = None
       else (\<exists>cipher. length cipher = 2 * (LENGTH('a) div 8) \<and>
               encode ws TYPE('a) r [] block = Some (Inr cipher)) \<and>
            (\<exists>plain. length plain = 2 * (LENGTH('a) div 8) \<and>
               decode ws TYPE('a) r [] block = Inr plain)))"
proof (intro conjI impI)
  have s32: "supported TYPE(32)" by (simp add: supported_def)
  have len: "length [1, 2, 3, 4, 5, 6, 7, 8 :: byte] = u TYPE(32) * 2" by (simp add: u_def)
  show "encode Undefined TYPE(32) 1 [] [1, 2, 3, 4, 5, 6, 7, 8] = Some (Inl UndefinedShift)"
    using s32 len
    by (simp add: encode_def pack_block_eq [OF len] encodeWords_def setupS_32_1_empty_undefined)
  show "decode Undefined TYPE(32) 1 [] [1, 2, 3, 4, 5, 6, 7, 8] = Inl UndefinedShift"
    using s32 len
    by (simp add: decode_def pack_block_eq [OF len] decodeWords_def setupS_32_1_empty_undefined
        and_then_def)
next
  assume h: "supported TYPE('a) \<and> (ws \<noteq> Undefined \<or> LENGTH('a) = 16) \<and>
    length block = 2 * (LENGTH('a) div 8)"
  then have sup: "supported TYPE('a)" by simp
  show "c TYPE('a) (length ([] :: byte list)) = 1"
    using spec_L_empty(3) [OF sup] by simp
next
  assume h: "supported TYPE('a) \<and> (ws \<noteq> Undefined \<or> LENGTH('a) = 16) \<and>
    length block = 2 * (LENGTH('a) div 8)"
  then have sup: "supported TYPE('a)" and ok: "ws \<noteq> Undefined \<or> LENGTH('a) = 16"
    and len: "length block = u TYPE('a) * 2" and len': "length block = 2 * (LENGTH('a) div 8)"
    by (simp_all add: u_def)
  show "if r = 255 then encode ws TYPE('a) r [] block = None
       else (\<exists>cipher. length cipher = 2 * (LENGTH('a) div 8) \<and>
               encode ws TYPE('a) r [] block = Some (Inr cipher)) \<and>
            (\<exists>plain. length plain = 2 * (LENGTH('a) div 8) \<and>
               decode ws TYPE('a) r [] block = Inr plain)"
  proof (cases "r = 255")
    case True
    have "encode ws TYPE('a) 255 [] block = None"
      by (rule encode_255_never_returns [OF sup ok len])
    with True show ?thesis by simp
  next
    case False
    have enc: "encode ws TYPE('a) r [] block = Some (Inr (spec_encode TYPE('a) r [] block))"
      by (rule encode_eq [OF sup ok False len])
    have l: "length (spec_encode TYPE('a) r [] block) = 2 * (LENGTH('a) div 8)"
      using length_spec_encode [of r "[]" block, where ?'a = 'a] by (simp add: u_def)
    have a: "\<exists>cipher. length cipher = 2 * (LENGTH('a) div 8) \<and>
               encode ws TYPE('a) r [] block = Some (Inr cipher)"
      using l enc by (intro exI conjI)
    obtain plain where "length plain = 2 * (LENGTH('a) div 8)"
      and "decode ws TYPE('a) r [] block = Inr plain"
      using decode_total [OF sup ok False len', of "[]"] by blast
    then have b: "\<exists>plain. length plain = 2 * (LENGTH('a) div 8) \<and>
               decode ws TYPE('a) r [] block = Inr plain"
      by (intro exI conjI)
    from False a b show ?thesis by (simp only: if_False simp_thms)
  qed
qed

theorem empty_key_encode_decode_witness:
  "supported TYPE(16) \<and> length [0, 0, 0, 0 :: byte] = 2 * (LENGTH(16) div 8) \<and>
   c TYPE(16) (length ([] :: byte list)) = 1 \<and>
   encode Undefined TYPE(16) 255 [] [0, 0, 0, 0] = None \<and>
   (\<exists>cipher. length cipher = 2 * (LENGTH(16) div 8) \<and>
      encode Undefined TYPE(16) 2 [] [0, 0, 0, 0] = Some (Inr cipher)) \<and>
   (\<exists>plain. length plain = 2 * (LENGTH(16) div 8) \<and>
      decode Undefined TYPE(16) 2 [] [0, 0, 0, 0] = Inr plain)"
proof -
  have s16: "supported TYPE(16)" by (simp add: supported_def)
  have len: "length [0, 0, 0, 0 :: byte] = 2 * (LENGTH(16) div 8)" by simp
  have r: "(2 :: 8 word) \<noteq> 255" by simp
  note a = empty_key_encode_decode [where ?'a = 16, of Undefined "[0, 0, 0, 0]" 255,
      THEN conjunct2, THEN conjunct2]
  note b = empty_key_encode_decode [where ?'a = 16, of Undefined "[0, 0, 0, 0]" 2,
      THEN conjunct2, THEN conjunct2]
  have c1: "c TYPE(16) (length ([] :: byte list)) = 1"
    and n: "encode Undefined TYPE(16) 255 [] [0, 0, 0, 0] = None"
    using a s16 len by simp_all
  have e: "\<exists>cipher. length cipher = 2 * (LENGTH(16) div 8) \<and>
      encode Undefined TYPE(16) 2 [] [0, 0, 0, 0] = Some (Inr cipher)"
    and d: "\<exists>plain. length plain = 2 * (LENGTH(16) div 8) \<and>
      decode Undefined TYPE(16) 2 [] [0, 0, 0, 0] = Inr plain"
    using b s16 len r by simp_all
  from s16 len c1 n e d show ?thesis by (intro conjI)
qed

end
